theory Spec2Isabelle
  imports Main "HOL-Library.Signed_Division" "HOL-Library.Word"
begin

section \<open>Time values\<close>

text \<open>
  Modelled from the spec: \<^verbatim>\<open>base::TimeTicks\<close> and \<^verbatim>\<open>base::TimeDelta\<close> are declared in
  \<^verbatim>\<open>base/time/time.h\<close>, which is not among the sources. The spec computes with them as
  quantities (\<^verbatim>\<open>now + delay\<close>, \<^verbatim>\<open>t + 1s - ((t - epoch) mod 1s)\<close>), so both are
  integer counts of microseconds here; the default-constructed \<^verbatim>\<open>TimeTicks()\<close> is the
  epoch 0 and doubles as the "null" time, as \<^verbatim>\<open>is_null()\<close> tests it. The operator
  \<^verbatim>\<open>%\<close> of the code is the remainder of C++ integer division, which truncates
  towards zero: \<open>smod\<close>, not the flooring \<open>mod\<close> of HOL.

  Both classes keep their count in a signed 64-bit integer, so a time is a count from
  \<open>kint64min\<close> to \<open>kint64max\<close>. Neither the code nor the spec says what an operator
  returns when the exact result lies outside that range; \<open>int64\<close> writes out the
  wrap-around of 64-bit two's-complement arithmetic for it. It is the identity on
  the range, and every value it returns lies in the range. It is applied in
  \<open>ThrottledRunTime\<close>, whose result is stated below for every time of the range; the
  other sums and differences of times are written exactly.
\<close>

type_synonym TimeTicks = int
type_synonym TimeDelta = int

definition kMicrosecondsPerSecond :: int where
  "kMicrosecondsPerSecond = 1000000"

definition FromSeconds :: "int \<Rightarrow> TimeDelta" where
  "FromSeconds secs = secs * kMicrosecondsPerSecond"

definition TimeTicks_epoch :: TimeTicks where
  "TimeTicks_epoch = 0"

definition is_null :: "TimeTicks \<Rightarrow> bool" where
  "is_null t = (t = 0)"

definition kint64min :: int where
  "kint64min = - 9223372036854775808"

definition kint64max :: int where
  "kint64max = 9223372036854775807"

definition int64 :: "int \<Rightarrow> int" where
  "int64 x = (x + 9223372036854775808) mod 18446744073709551616 - 9223372036854775808"

section \<open>ThrottlingHelper: quantised run-times\<close>

text \<open>
  \<^verbatim>\<open>ThrottlingHelper::ThrottledRunTime\<close> (throttling_helper.cc, lines 110-116). The
  expression applies four operators of the time classes, \<^verbatim>\<open>TimeTicks + TimeDelta\<close>,
  \<^verbatim>\<open>TimeTicks - TimeTicks\<close>, \<^verbatim>\<open>TimeDelta % TimeDelta\<close> and \<^verbatim>\<open>TimeTicks - TimeDelta\<close>;
  each returns a 64-bit count.
\<close>

definition ThrottledRunTime :: "TimeTicks \<Rightarrow> TimeTicks" where
  "ThrottledRunTime unthrottled_runtime =
     (let one_second = FromSeconds 1
      in int64 (int64 (unthrottled_runtime + one_second) -
           int64 (int64 (unthrottled_runtime - TimeTicks_epoch) smod one_second)))"

section \<open>Collaborators of the throttling helper\<close>

text \<open>
  A DCHECK that fails is fatal: every checked operation returns \<open>Inl DCHECK_failed\<close> then.
\<close>

datatype fatal = DCHECK_failed

text \<open>A \<^verbatim>\<open>TaskQueue*\<close> is the address of a task queue.\<close>

type_synonym queue_ref = nat

type_synonym Task = nat

text \<open>
  Modelled from the spec: \<^verbatim>\<open>TaskQueue\<close> (task_queue.h, task_queue_impl.cc) is not among the
  sources. The spec gives a queue one time domain and one pump policy, both
  reassignable, and a content of pending tasks; \<^verbatim>\<open>SetTimeDomain\<close> and
  \<^verbatim>\<open>SetPumpPolicy\<close> are the assignments it describes, and a queue is empty when it holds
  no task. The time domains the helper hands out are the scheduler's real one and
  its own throttled one; a queue may arrive from any other.
\<close>

datatype PumpPolicy = AUTO | MANUAL

datatype TimeDomainRef = real_time_domain | throttled_time_domain | other_time_domain nat

record TaskQueue =
  time_domain :: TimeDomainRef
  pump_policy :: PumpPolicy
  tasks :: "Task list"

definition IsEmpty :: "TaskQueue \<Rightarrow> bool" where
  "IsEmpty q = (tasks q = [])"

text \<open>
  The calls the helper makes on objects whose code is elsewhere are recorded in the
  order it makes them: on its throttled time domain (\<^verbatim>\<open>AdvanceTo\<close>,
  \<^verbatim>\<open>ClearExpiredWakeups\<close>), on a throttled queue (\<^verbatim>\<open>PumpQueue\<close>), on its cancelable pump
  closure (\<^verbatim>\<open>Cancel\<close>) and on the control task runner (\<^verbatim>\<open>PostTask\<close> of the forwarding
  closure, \<^verbatim>\<open>PostDelayedTask\<close> of the pump closure with its delay).
\<close>

datatype Call =
    AdvanceTo TimeTicks
  | PumpQueue queue_ref bool
  | ClearExpiredWakeups
  | Cancel
  | PostTask_forward_immediate_work
  | PostDelayedTask_pump TimeDelta

text \<open>
  What the environment answers during one call of the helper: the tick clock
  (\<^verbatim>\<open>tick_clock_->NowTicks()\<close>), whether the caller is on the control thread
  (\<^verbatim>\<open>task_runner_->RunsTasksOnCurrentThread()\<close>), the next run-time of the throttled
  domain (\<^verbatim>\<open>time_domain_->NextScheduledRunTime\<close>, \<open>None\<close> when it returns false) and,
  for the queue being throttled, \<^verbatim>\<open>task_queue->HasPendingImmediateWork()\<close>. Each is
  asked at most once per call.
\<close>

record Env =
  NowTicks :: TimeTicks
  RunsTasksOnCurrentThread :: bool
  NextScheduledRunTime :: "TimeTicks option"
  HasPendingImmediateWork :: bool

section \<open>ThrottlingHelper\<close>

text \<open>
  The members of \<^verbatim>\<open>ThrottlingHelper\<close> that the code reads and writes, the queue objects
  its pointers reach, and the calls made so far (the members are written without the
  trailing underscore of the source). \<^verbatim>\<open>throttled_queues_\<close> is a
  \<^verbatim>\<open>std::set<TaskQueue*>\<close>: a list without duplicates in increasing address order, which
  is the order the pump loop visits.
\<close>

record ThrottlingHelper =
  task_runner :: queue_ref
  throttled_queues :: "queue_ref list"
  pending_pump_throttled_tasks_runtime :: TimeTicks
  task_queues :: "queue_ref \<Rightarrow> TaskQueue"
  calls :: "Call list"

definition set_insert :: "queue_ref \<Rightarrow> queue_ref list \<Rightarrow> queue_ref list" where
  "set_insert q qs = (if q \<in> set qs then qs else insort q qs)"

definition set_erase :: "queue_ref \<Rightarrow> queue_ref list \<Rightarrow> queue_ref list" where
  "set_erase q qs = removeAll q qs"

definition SetTimeDomain :: "queue_ref \<Rightarrow> TimeDomainRef \<Rightarrow> ThrottlingHelper \<Rightarrow> ThrottlingHelper" where
  "SetTimeDomain q d s = s\<lparr>task_queues := (task_queues s)(q := (task_queues s q)\<lparr>time_domain := d\<rparr>)\<rparr>"

definition SetPumpPolicy :: "queue_ref \<Rightarrow> PumpPolicy \<Rightarrow> ThrottlingHelper \<Rightarrow> ThrottlingHelper" where
  "SetPumpPolicy q p s = s\<lparr>task_queues := (task_queues s)(q := (task_queues s q)\<lparr>pump_policy := p\<rparr>)\<rparr>"

definition call :: "Call \<Rightarrow> ThrottlingHelper \<Rightarrow> ThrottlingHelper" where
  "call c s = s\<lparr>calls := calls s @ [c]\<rparr>"

text \<open>
  \<^verbatim>\<open>ThrottlingHelper::MaybeSchedulePumpThrottledTasksLocked\<close> (lines 118-136).
\<close>

definition MaybeSchedulePumpThrottledTasksLocked ::
    "TimeTicks \<Rightarrow> TimeTicks \<Rightarrow> ThrottlingHelper \<Rightarrow> ThrottlingHelper" where
  "MaybeSchedulePumpThrottledTasksLocked now unthrottled_runtime s =
     (let throttled_runtime = ThrottledRunTime unthrottled_runtime
      in if \<not> is_null (pending_pump_throttled_tasks_runtime s) \<and>
            throttled_runtime \<ge> pending_pump_throttled_tasks_runtime s
         then s
         else
           let s1 = s\<lparr>pending_pump_throttled_tasks_runtime := throttled_runtime\<rparr>;
               s2 = call Cancel s1
           in call (PostDelayedTask_pump (pending_pump_throttled_tasks_runtime s2 - now)) s2)"

text \<open>\<^verbatim>\<open>ThrottlingHelper::OnTimeDomainHasImmediateWork\<close> (lines 61-71).\<close>

definition OnTimeDomainHasImmediateWork :: "Env \<Rightarrow> ThrottlingHelper \<Rightarrow> ThrottlingHelper" where
  "OnTimeDomainHasImmediateWork env s =
     (if \<not> RunsTasksOnCurrentThread env then call PostTask_forward_immediate_work s
      else
        let now = NowTicks env
        in MaybeSchedulePumpThrottledTasksLocked now now s)"

text \<open>\<^verbatim>\<open>ThrottlingHelper::OnTimeDomainHasDelayedWork\<close> (lines 73-83).\<close>

definition OnTimeDomainHasDelayedWork :: "Env \<Rightarrow> ThrottlingHelper \<Rightarrow> fatal + ThrottlingHelper" where
  "OnTimeDomainHasDelayedWork env s =
     (case NextScheduledRunTime env of
        None \<Rightarrow> Inl DCHECK_failed
      | Some next_scheduled_delayed_task \<Rightarrow>
          let now = NowTicks env
          in Inr (MaybeSchedulePumpThrottledTasksLocked now next_scheduled_delayed_task s))"

text \<open>\<^verbatim>\<open>ThrottlingHelper::Throttle\<close> (lines 38-52).\<close>

definition Throttle :: "Env \<Rightarrow> queue_ref \<Rightarrow> ThrottlingHelper \<Rightarrow> fatal + ThrottlingHelper" where
  "Throttle env task_queue s =
     (if task_queue = task_runner s then Inl DCHECK_failed
      else
        let s1 = s\<lparr>throttled_queues := set_insert task_queue (throttled_queues s)\<rparr>;
            s2 = SetTimeDomain task_queue throttled_time_domain s1;
            s3 = SetPumpPolicy task_queue MANUAL s2
        in if \<not> IsEmpty (task_queues s3 task_queue) then
             (if HasPendingImmediateWork env then Inr (OnTimeDomainHasImmediateWork env s3)
              else OnTimeDomainHasDelayedWork env s3)
           else Inr s3)"

text \<open>\<^verbatim>\<open>ThrottlingHelper::Unthrottle\<close> (lines 54-59).\<close>

definition Unthrottle :: "queue_ref \<Rightarrow> ThrottlingHelper \<Rightarrow> ThrottlingHelper" where
  "Unthrottle task_queue s =
     (let s1 = s\<lparr>throttled_queues := set_erase task_queue (throttled_queues s)\<rparr>;
          s2 = SetTimeDomain task_queue real_time_domain s1
      in SetPumpPolicy task_queue AUTO s2)"

text \<open>
  \<^verbatim>\<open>ThrottlingHelper::PumpThrottledTasks\<close> (lines 85-108). The range-for over
  \<^verbatim>\<open>throttled_queues_\<close> is \<open>pump_queues\<close>; its \<^verbatim>\<open>continue\<close> is the first branch.
\<close>

fun pump_queues :: "queue_ref list \<Rightarrow> ThrottlingHelper \<Rightarrow> ThrottlingHelper" where
  "pump_queues [] s = s"
| "pump_queues (task_queue # rest) s =
     (if IsEmpty (task_queues s task_queue) then pump_queues rest s
      else pump_queues rest (call (PumpQueue task_queue False) s))"

definition PumpThrottledTasks :: "Env \<Rightarrow> ThrottlingHelper \<Rightarrow> ThrottlingHelper" where
  "PumpThrottledTasks env s =
     (let s1 = s\<lparr>pending_pump_throttled_tasks_runtime := TimeTicks_epoch\<rparr>;
          now = NowTicks env;
          s2 = call (AdvanceTo now) s1;
          s3 = pump_queues (throttled_queues s2) s2;
          s4 = call ClearExpiredWakeups s3
      in case NextScheduledRunTime env of
           Some next_scheduled_delayed_task \<Rightarrow>
             MaybeSchedulePumpThrottledTasksLocked now next_scheduled_delayed_task s4
         | None \<Rightarrow> s4)"

text \<open>
  The pump wake-ups still armed after a sequence of calls: \<^verbatim>\<open>Cancel\<close> on the cancelable
  closure disarms every pump callback handed out before it, \<^verbatim>\<open>PostDelayedTask\<close> arms one
  more. A wake-up that has fired stays in the list until the next \<^verbatim>\<open>Cancel\<close>, so the list
  bounds the wake-ups that can still fire from above.
\<close>

fun armed_pumps :: "Call list \<Rightarrow> TimeDelta list \<Rightarrow> TimeDelta list" where
  "armed_pumps [] acc = acc"
| "armed_pumps (Cancel # cs) acc = armed_pumps cs []"
| "armed_pumps (PostDelayedTask_pump d # cs) acc = armed_pumps cs (acc @ [d])"
| "armed_pumps (c # cs) acc = armed_pumps cs acc"

definition pending_pumps :: "ThrottlingHelper \<Rightarrow> TimeDelta list" where
  "pending_pumps s = armed_pumps (calls s) []"

text \<open>
  The configuration \<^verbatim>\<open>Throttle\<close> gives a queue before it looks at the queue's work:
  member of \<^verbatim>\<open>throttled_queues_\<close>, on the throttled time domain, pumped manually.
\<close>

definition throttled_config :: "queue_ref \<Rightarrow> ThrottlingHelper \<Rightarrow> ThrottlingHelper" where
  "throttled_config q s =
     s\<lparr>throttled_queues := set_insert q (throttled_queues s),
       task_queues := (task_queues s)
         (q := (task_queues s q)\<lparr>time_domain := throttled_time_domain, pump_policy := MANUAL\<rparr>)\<rparr>"

text \<open>
  The entry points of the helper, called in any order, each with the answers the
  environment gives during that call; a run stops at the first failed DCHECK.
\<close>

datatype HelperCall =
    CallThrottle queue_ref
  | CallUnthrottle queue_ref
  | CallOnTimeDomainHasImmediateWork
  | CallOnTimeDomainHasDelayedWork
  | CallPumpThrottledTasks

fun helper_call :: "Env \<times> HelperCall \<Rightarrow> ThrottlingHelper \<Rightarrow> fatal + ThrottlingHelper" where
  "helper_call (env, CallThrottle q) s = Throttle env q s"
| "helper_call (env, CallUnthrottle q) s = Inr (Unthrottle q s)"
| "helper_call (env, CallOnTimeDomainHasImmediateWork) s = Inr (OnTimeDomainHasImmediateWork env s)"
| "helper_call (env, CallOnTimeDomainHasDelayedWork) s = OnTimeDomainHasDelayedWork env s"
| "helper_call (env, CallPumpThrottledTasks) s = Inr (PumpThrottledTasks env s)"

fun helper_run :: "(Env \<times> HelperCall) list \<Rightarrow> ThrottlingHelper \<Rightarrow> fatal + ThrottlingHelper" where
  "helper_run [] s = Inr s"
| "helper_run (c # cs) s =
     (case helper_call c s of Inl e \<Rightarrow> Inl e | Inr s' \<Rightarrow> helper_run cs s')"

definition at_most_one_pending_pump :: "ThrottlingHelper \<Rightarrow> bool" where
  "at_most_one_pending_pump s = (length (pending_pumps s) \<le> 1)"

section \<open>RealTimeDomain\<close>

text \<open>
  \<^verbatim>\<open>RealTimeDomain::ComputeDelayedRunTime\<close> (real_time_domain.cc, lines 29-33) and
  \<^verbatim>\<open>RealTimeDomain::MaybeAdvanceTime\<close> (lines 42-56). \<^verbatim>\<open>NextScheduledRunTime\<close> is inherited
  from \<^verbatim>\<open>TimeDomain\<close> and the clock is read through the manager's
  \<^verbatim>\<open>CreateLazyNow()\<close>, both outside the sources: the environment answers them as
  above. The request \<^verbatim>\<open>MaybeScheduleDelayedWork(FROM_HERE, &lazy_now, delay)\<close> made on the
  task queue manager is recorded with the value of \<^verbatim>\<open>lazy_now\<close> and the delay.
\<close>

datatype ManagerCall = MaybeScheduleDelayedWork TimeTicks TimeDelta

definition ComputeDelayedRunTime :: "TimeTicks \<Rightarrow> TimeDelta \<Rightarrow> TimeTicks" where
  "ComputeDelayedRunTime time_domain_now delay = time_domain_now + delay"

definition MaybeAdvanceTime :: "Env \<Rightarrow> ManagerCall list \<Rightarrow> bool \<times> ManagerCall list" where
  "MaybeAdvanceTime env manager_calls =
     (case NextScheduledRunTime env of
        None \<Rightarrow> (False, manager_calls)
      | Some next_run_time \<Rightarrow>
          let lazy_now = NowTicks env
          in if lazy_now \<ge> next_run_time then (True, manager_calls)
             else (False, manager_calls @
                     [MaybeScheduleDelayedWork lazy_now (next_run_time - lazy_now)]))"

section \<open>Example states\<close>

text \<open>
  A helper whose control queue is queue 0, with nothing throttled and no pump pending;
  queue 2 holds one task. In \<open>delayed_env\<close> the clock reads 0.1 s and the throttled
  domain's next run-time is 2.3 s.
\<close>

definition idle_queue :: TaskQueue where
  "idle_queue = \<lparr>time_domain = real_time_domain, pump_policy = AUTO, tasks = []\<rparr>"

definition fresh_helper :: ThrottlingHelper where
  "fresh_helper =
     \<lparr>task_runner = 0, throttled_queues = [], pending_pump_throttled_tasks_runtime = 0,
      task_queues = (\<lambda>q. idle_queue)(2 := idle_queue\<lparr>tasks := [7]\<rparr>), calls = []\<rparr>"

definition delayed_env :: Env where
  "delayed_env =
     \<lparr>NowTicks = 100000, RunsTasksOnCurrentThread = True,
      NextScheduledRunTime = Some 2300000, HasPendingImmediateWork = False\<rparr>"

text \<open>
  The helper after \<open>Throttle\<close> of queue 2 in \<open>delayed_env\<close>: the pump is armed for
  3.0 s, the next second boundary after 2.3 s. \<open>pumped_helper\<close> is that helper after the
  pump then ran at 0.1 s, with 2.3 s still the domain's next run-time.
\<close>

definition throttled_helper :: ThrottlingHelper where
  "throttled_helper =
     \<lparr>task_runner = 0, throttled_queues = [2], pending_pump_throttled_tasks_runtime = 3000000,
      task_queues = (\<lambda>q. idle_queue)
        (2 := \<lparr>time_domain = throttled_time_domain, pump_policy = MANUAL, tasks = [7]\<rparr>),
      calls = [Cancel, PostDelayedTask_pump 2900000]\<rparr>"

definition pumped_helper :: ThrottlingHelper where
  "pumped_helper =
     throttled_helper\<lparr>calls :=
       [Cancel, PostDelayedTask_pump 2900000, AdvanceTo 100000, PumpQueue 2 False,
        ClearExpiredWakeups, Cancel, PostDelayedTask_pump 2900000]\<rparr>"

section \<open>WorkQueueSets\<close>

text \<open>
  Modelled from the spec: \<^verbatim>\<open>EnqueueOrder\<close> (enqueue_order.h) is not among the sources; the
  spec makes it a 64-bit counter, compared only. A \<^verbatim>\<open>WorkQueue*\<close> is the address of a work
  queue.
\<close>

type_synonym EnqueueOrder = "64 word"

type_synonym work_queue_ref = nat

text \<open>
  One element of \<^verbatim>\<open>enqueue_order_to_work_queue_maps_\<close> is a
  \<^verbatim>\<open>std::map<EnqueueOrder, WorkQueue*>\<close>: a list of entries in strictly increasing key
  order, so that \<^verbatim>\<open>begin()\<close> is the head. \<^verbatim>\<open>insert\<close> keeps the entry already stored under
  an equal key; \<^verbatim>\<open>erase(key)\<close> removes the entry with that key, if any.
\<close>

fun map_insert :: "'k::linorder \<times> 'v \<Rightarrow> ('k \<times> 'v) list \<Rightarrow> ('k \<times> 'v) list" where
  "map_insert entry [] = [entry]"
| "map_insert entry (e # m) =
     (if fst entry < fst e then entry # e # m
      else if fst entry = fst e then e # m
      else e # map_insert entry m)"

definition map_erase :: "'k \<Rightarrow> ('k \<times> 'v) list \<Rightarrow> ('k \<times> 'v) list" where
  "map_erase k m = filter (\<lambda>e. fst e \<noteq> k) m"

text \<open>
  Modelled from the spec: \<^verbatim>\<open>WorkQueue\<close> (work_queue.h, work_queue.cc) is not among the
  sources. The spec gives it an oldest-first sequence of (EnqueueOrder, Task) pairs, the
  index of the set it is assigned to, and the query for the front task's EnqueueOrder.
\<close>

record WorkQueue =
  queued_tasks :: "(EnqueueOrder \<times> Task) list"
  work_queue_set_index :: nat

definition GetFrontTaskEnqueueOrder :: "WorkQueue \<Rightarrow> EnqueueOrder option" where
  "GetFrontTaskEnqueueOrder q = (case queued_tasks q of [] \<Rightarrow> None | task # _ \<Rightarrow> Some (fst task))"

text \<open>
  The member of \<^verbatim>\<open>WorkQueueSets\<close> (written without its trailing underscore) and the work
  queue objects its pointers reach. \<^verbatim>\<open>WorkQueueSets::WorkQueueSets(num_sets)\<close> (lines 77-78)
  starts with \<open>num_sets\<close> empty maps. At that moment no work queue holds a task; the set
  index each queue starts with is not fixed by the sources and is left open as
  \<open>initial_set\<close>.
\<close>

record WorkQueueSets =
  enqueue_order_to_work_queue_maps :: "(EnqueueOrder \<times> work_queue_ref) list list"
  work_queues :: "work_queue_ref \<Rightarrow> WorkQueue"

definition new_WorkQueueSets :: "nat \<Rightarrow> (work_queue_ref \<Rightarrow> nat) \<Rightarrow> WorkQueueSets" where
  "new_WorkQueueSets num_sets initial_set =
     \<lparr>enqueue_order_to_work_queue_maps = replicate num_sets [],
      work_queues = (\<lambda>q. \<lparr>queued_tasks = [], work_queue_set_index = initial_set q\<rparr>)\<rparr>"

text \<open>
  \<^verbatim>\<open>WorkQueueSets::RemoveQueue\<close> (lines 82-93). The second DCHECK dereferences
  \<^verbatim>\<open>find(enqueue_order)\<close>: it fails when the key is absent or maps to another queue.
\<close>

definition RemoveQueue :: "work_queue_ref \<Rightarrow> WorkQueueSets \<Rightarrow> fatal + WorkQueueSets" where
  "RemoveQueue work_queue s =
     (case GetFrontTaskEnqueueOrder (work_queues s work_queue) of
        None \<Rightarrow> Inr s
      | Some enqueue_order \<Rightarrow>
          let set_index = work_queue_set_index (work_queues s work_queue);
              maps = enqueue_order_to_work_queue_maps s
          in if \<not> set_index < length maps then Inl DCHECK_failed
             else if map_of (maps ! set_index) enqueue_order \<noteq> Some work_queue
               then Inl DCHECK_failed
             else Inr (s\<lparr>enqueue_order_to_work_queue_maps :=
                          maps[set_index := map_erase enqueue_order (maps ! set_index)]\<rparr>))"

text \<open>\<^verbatim>\<open>WorkQueueSets::AssignQueueToSet\<close> (lines 95-107).\<close>

definition set_work_queue_set_index :: "work_queue_ref \<Rightarrow> nat \<Rightarrow> WorkQueueSets \<Rightarrow> WorkQueueSets" where
  "set_work_queue_set_index work_queue set_index s =
     s\<lparr>work_queues := (work_queues s)
         (work_queue := (work_queues s work_queue)\<lparr>work_queue_set_index := set_index\<rparr>)\<rparr>"

definition AssignQueueToSet :: "work_queue_ref \<Rightarrow> nat \<Rightarrow> WorkQueueSets \<Rightarrow> fatal + WorkQueueSets" where
  "AssignQueueToSet work_queue set_index s =
     (if \<not> set_index < length (enqueue_order_to_work_queue_maps s) then Inl DCHECK_failed
      else
        let has_enqueue_order = GetFrontTaskEnqueueOrder (work_queues s work_queue);
            old_set = work_queue_set_index (work_queues s work_queue)
        in if \<not> old_set < length (enqueue_order_to_work_queue_maps s) then Inl DCHECK_failed
           else
             let s1 = set_work_queue_set_index work_queue set_index s
             in case has_enqueue_order of
                  None \<Rightarrow> Inr s1
                | Some enqueue_order \<Rightarrow>
                    let maps1 = (enqueue_order_to_work_queue_maps s1)
                          [old_set := map_erase enqueue_order
                                        (enqueue_order_to_work_queue_maps s1 ! old_set)];
                        maps2 = maps1
                          [set_index := map_insert (enqueue_order, work_queue) (maps1 ! set_index)]
                    in Inr (s1\<lparr>enqueue_order_to_work_queue_maps := maps2\<rparr>))"

text \<open>\<^verbatim>\<open>WorkQueueSets::OnPushQueue\<close> (lines 109-118).\<close>

definition OnPushQueue :: "work_queue_ref \<Rightarrow> WorkQueueSets \<Rightarrow> fatal + WorkQueueSets" where
  "OnPushQueue work_queue s =
     (case GetFrontTaskEnqueueOrder (work_queues s work_queue) of
        None \<Rightarrow> Inl DCHECK_failed
      | Some enqueue_order \<Rightarrow>
          let set_index = work_queue_set_index (work_queues s work_queue);
              maps = enqueue_order_to_work_queue_maps s
          in if \<not> set_index < length maps then Inl DCHECK_failed
             else Inr (s\<lparr>enqueue_order_to_work_queue_maps :=
                          maps[set_index := map_insert (enqueue_order, work_queue) (maps ! set_index)]\<rparr>))"

text \<open>\<^verbatim>\<open>WorkQueueSets::OnPopQueue\<close> (lines 120-137).\<close>

definition OnPopQueue :: "work_queue_ref \<Rightarrow> WorkQueueSets \<Rightarrow> fatal + WorkQueueSets" where
  "OnPopQueue work_queue s =
     (let set_index = work_queue_set_index (work_queues s work_queue);
          maps = enqueue_order_to_work_queue_maps s
      in if \<not> set_index < length maps then Inl DCHECK_failed
         else if maps ! set_index = [] then Inl DCHECK_failed
         else if snd (hd (maps ! set_index)) \<noteq> work_queue then Inl DCHECK_failed
         else
           let maps1 = maps[set_index := tl (maps ! set_index)]
           in case GetFrontTaskEnqueueOrder (work_queues s work_queue) of
                None \<Rightarrow> Inr (s\<lparr>enqueue_order_to_work_queue_maps := maps1\<rparr>)
              | Some enqueue_order \<Rightarrow>
                  Inr (s\<lparr>enqueue_order_to_work_queue_maps :=
                          maps1[set_index := map_insert (enqueue_order, work_queue)
                                               (maps1 ! set_index)]\<rparr>))"

text \<open>
  \<^verbatim>\<open>WorkQueueSets::GetOldestQueueInSet\<close> (lines 139-147), \<open>None\<close> when it returns false, and
  \<^verbatim>\<open>WorkQueueSets::IsSetEmpty\<close> (lines 149-153).
\<close>

definition GetOldestQueueInSet :: "nat \<Rightarrow> WorkQueueSets \<Rightarrow> fatal + work_queue_ref option" where
  "GetOldestQueueInSet set_index s =
     (let maps = enqueue_order_to_work_queue_maps s
      in if \<not> set_index < length maps then Inl DCHECK_failed
         else if maps ! set_index = [] then Inr None
         else Inr (Some (snd (hd (maps ! set_index)))))"

definition IsSetEmpty :: "nat \<Rightarrow> WorkQueueSets \<Rightarrow> fatal + bool" where
  "IsSetEmpty set_index s =
     (let maps = enqueue_order_to_work_queue_maps s
      in if \<not> set_index < length maps then Inl DCHECK_failed
         else Inr (maps ! set_index = []))"

text \<open>
  Modelled from the spec: pushing and popping a task are operations of \<^verbatim>\<open>WorkQueue\<close>, not
  among the sources. The spec has \<^verbatim>\<open>OnPushQueue\<close> called after a task is pushed onto a
  queue that had no front task, and \<^verbatim>\<open>OnPopQueue\<close> called after a task is popped from
  the front of a queue.
\<close>

definition Push :: "work_queue_ref \<Rightarrow> EnqueueOrder \<times> Task \<Rightarrow> WorkQueueSets \<Rightarrow> fatal + WorkQueueSets" where
  "Push q task s =
     (let was_empty = (queued_tasks (work_queues s q) = []);
          s1 = s\<lparr>work_queues := (work_queues s)
                 (q := (work_queues s q)\<lparr>queued_tasks := queued_tasks (work_queues s q) @ [task]\<rparr>)\<rparr>
      in if was_empty then OnPushQueue q s1 else Inr s1)"

definition PopTaskFromFront :: "work_queue_ref \<Rightarrow> WorkQueueSets \<Rightarrow> fatal + WorkQueueSets" where
  "PopTaskFromFront q s =
     (case queued_tasks (work_queues s q) of
        [] \<Rightarrow> Inl DCHECK_failed
      | task # rest \<Rightarrow>
          OnPopQueue q (s\<lparr>work_queues := (work_queues s)
                          (q := (work_queues s q)\<lparr>queued_tasks := rest\<rparr>)\<rparr>))"

text \<open>
  Sequences of pushes, pops and set reassignments; a run stops at the first failed
  DCHECK. \<open>pushed_orders\<close> lists the EnqueueOrders a sequence pushes, in order: the
  spec's EnqueueOrder invariant makes them strictly increasing.
\<close>

datatype SetsCall =
    CallPush work_queue_ref "EnqueueOrder \<times> Task"
  | CallPopTaskFromFront work_queue_ref
  | CallAssignQueueToSet work_queue_ref nat

fun sets_call :: "SetsCall \<Rightarrow> WorkQueueSets \<Rightarrow> fatal + WorkQueueSets" where
  "sets_call (CallPush q task) s = Push q task s"
| "sets_call (CallPopTaskFromFront q) s = PopTaskFromFront q s"
| "sets_call (CallAssignQueueToSet q set_index) s = AssignQueueToSet q set_index s"

fun sets_run :: "SetsCall list \<Rightarrow> WorkQueueSets \<Rightarrow> fatal + WorkQueueSets" where
  "sets_run [] s = Inr s"
| "sets_run (c # cs) s =
     (case sets_call c s of Inl e \<Rightarrow> Inl e | Inr s' \<Rightarrow> sets_run cs s')"

fun pushed_orders :: "SetsCall list \<Rightarrow> EnqueueOrder list" where
  "pushed_orders [] = []"
| "pushed_orders (CallPush q task # cs) = fst task # pushed_orders cs"
| "pushed_orders (c # cs) = pushed_orders cs"

text \<open>
  What the maps are meant to hold: in map \<open>i\<close>, one entry for each queue of set \<open>i\<close>
  that has a front task, under that task's EnqueueOrder (\<open>maps_ok\<close>); the queues hold
  their tasks oldest first and no EnqueueOrder twice (\<open>queues_ok\<close>). \<open>registered\<close> are the
  queues that occur in some map.
\<close>

definition entries :: "WorkQueueSets \<Rightarrow> nat \<Rightarrow> (EnqueueOrder \<times> work_queue_ref) set" where
  "entries s i =
     {(k, q). work_queue_set_index (work_queues s q) = i
        \<and> GetFrontTaskEnqueueOrder (work_queues s q) = Some k}"

definition orders :: "WorkQueueSets \<Rightarrow> EnqueueOrder set" where
  "orders s = (\<Union>q. fst ` set (queued_tasks (work_queues s q)))"

definition queues_ok :: "WorkQueueSets \<Rightarrow> bool" where
  "queues_ok s \<longleftrightarrow>
     (\<forall>q. sorted_wrt (<) (map fst (queued_tasks (work_queues s q))))
     \<and> (\<forall>q q' t t'. t \<in> set (queued_tasks (work_queues s q))
           \<and> t' \<in> set (queued_tasks (work_queues s q')) \<and> fst t = fst t' \<longrightarrow> q = q')"

definition maps_ok :: "WorkQueueSets \<Rightarrow> bool" where
  "maps_ok s \<longleftrightarrow>
     (\<forall>i < length (enqueue_order_to_work_queue_maps s).
         sorted_wrt (<) (map fst (enqueue_order_to_work_queue_maps s ! i))
         \<and> set (enqueue_order_to_work_queue_maps s ! i) = entries s i)
     \<and> (\<forall>q. queued_tasks (work_queues s q) \<noteq> [] \<longrightarrow>
           work_queue_set_index (work_queues s q) < length (enqueue_order_to_work_queue_maps s))"

fun call_queue :: "SetsCall \<Rightarrow> work_queue_ref" where
  "call_queue (CallPush q task) = q"
| "call_queue (CallPopTaskFromFront q) = q"
| "call_queue (CallAssignQueueToSet q set_index) = q"

definition registered :: "WorkQueueSets \<Rightarrow> work_queue_ref set" where
  "registered s = (\<Union>m \<in> set (enqueue_order_to_work_queue_maps s). snd ` set m)"

text \<open>
  Three sets, every queue in set 0 at first; queue 5 is moved to set 2 and gets task 1, queue 7 gets tasks 2 and 3 and
  queue 9 task 4, both in set 0. \<open>popped_sets\<close> is \<open>example_sets\<close> after the front task
  of queue 7 left the queue and before \<open>OnPopQueue\<close> is told.
\<close>

definition empty_queue :: WorkQueue where
  "empty_queue = \<lparr>queued_tasks = [], work_queue_set_index = 0\<rparr>"

definition example_calls :: "SetsCall list" where
  "example_calls =
     [CallAssignQueueToSet 5 2, CallPush 5 (1, 10), CallPush 7 (2, 11), CallPush 7 (3, 12),
      CallPush 9 (4, 13)]"

definition example_sets :: WorkQueueSets where
  "example_sets =
     \<lparr>enqueue_order_to_work_queue_maps = [[(2, 7), (4, 9)], [], [(1, 5)]],
      work_queues = (\<lambda>q. empty_queue)
        (5 := \<lparr>queued_tasks = [(1, 10)], work_queue_set_index = 2\<rparr>,
         7 := \<lparr>queued_tasks = [(2, 11), (3, 12)], work_queue_set_index = 0\<rparr>,
         9 := \<lparr>queued_tasks = [(4, 13)], work_queue_set_index = 0\<rparr>)\<rparr>"

definition popped_sets :: WorkQueueSets where
  "popped_sets =
     example_sets\<lparr>work_queues := (work_queues example_sets)
       (7 := \<lparr>queued_tasks = [(3, 12)], work_queue_set_index = 0\<rparr>)\<rparr>"

section \<open>Quantisation\<close>

lemma smod_one_second_bounds:
  "- kMicrosecondsPerSecond < t smod kMicrosecondsPerSecond
   \<and> t smod kMicrosecondsPerSecond < kMicrosecondsPerSecond"
  using smod_int_range [where a = t and b = 1000000]
  by (simp add: kMicrosecondsPerSecond_def)

lemma minus_smod_one_second:
  "t - t smod kMicrosecondsPerSecond = kMicrosecondsPerSecond * (t sdiv kMicrosecondsPerSecond)"
  by (rule minus_smod_eq_mult_sdiv)

lemma int64_in_range:
  "kint64min \<le> int64 x \<and> int64 x \<le> kint64max"
proof -
  have "0 \<le> (x + 9223372036854775808) mod 18446744073709551616"
      "(x + 9223372036854775808) mod 18446744073709551616 < 18446744073709551616"
    by simp_all
  then show ?thesis
    by (simp add: int64_def kint64min_def kint64max_def)
qed

lemma int64_id:
  assumes "kint64min \<le> x" and "x \<le> kint64max"
  shows "int64 x = x"
  using assms by (simp add: int64_def kint64min_def kint64max_def mod_pos_pos_trivial)

lemma int64_minus_left:
  "int64 (int64 a - b) = int64 (a - b)"
proof -
  have "((a + 9223372036854775808) mod 18446744073709551616 - b) mod 18446744073709551616
      = (a + 9223372036854775808 - b) mod 18446744073709551616"
    by (rule mod_diff_left_eq)
  then show ?thesis
    by (simp add: int64_def algebra_simps)
qed

lemma ThrottledRunTime_in_range:
  assumes "kint64min \<le> t" and "t \<le> kint64max"
    and "t + kMicrosecondsPerSecond - t smod kMicrosecondsPerSecond \<le> kint64max"
  shows "ThrottledRunTime t = t + kMicrosecondsPerSecond - t smod kMicrosecondsPerSecond"
proof -
  have rem: "- kMicrosecondsPerSecond < t smod kMicrosecondsPerSecond"
      "t smod kMicrosecondsPerSecond < kMicrosecondsPerSecond"
    using smod_one_second_bounds [of t] by simp_all
  have "int64 (t smod kMicrosecondsPerSecond) = t smod kMicrosecondsPerSecond"
    using rem by (intro int64_id) (simp_all add: kint64min_def kint64max_def kMicrosecondsPerSecond_def)
  moreover have "int64 (t + kMicrosecondsPerSecond - t smod kMicrosecondsPerSecond)
      = t + kMicrosecondsPerSecond - t smod kMicrosecondsPerSecond"
    using rem assms by (intro int64_id) simp_all
  ultimately show ?thesis
    using assms(1,2)
    by (simp add: ThrottledRunTime_def FromSeconds_def TimeTicks_epoch_def Let_def
        int64_id int64_minus_left)
qed

text \<open>
  C1. For every time \<open>t\<close> of the 64-bit range for which \<open>t + 1s\<close> is a time of the
  range too, \<open>ThrottledRunTime t\<close> is \<open>t + 1s - ((t - epoch) % 1s)\<close> with the truncating
  remainder of the code, which from the epoch onwards is the same number as the
  flooring \<open>mod\<close>; the result is strictly later than \<open>t\<close>, it is a time of the range
  that lies a whole number of seconds from the epoch, and a \<open>t\<close> that is exactly \<open>N\<close>
  seconds from the epoch is sent to exactly \<open>N + 1\<close> seconds. For such a \<open>t\<close> no
  operator result leaves the range, so the statement does not depend on what the
  time classes do outside it.
\<close>

theorem ThrottledRunTime_next_boundary:
  assumes "kint64min \<le> t"
    and "t + FromSeconds 1 \<le> kint64max"
  shows "ThrottledRunTime t = t + FromSeconds 1 - ((t - TimeTicks_epoch) smod FromSeconds 1)
   \<and> t < ThrottledRunTime t
   \<and> kint64min \<le> ThrottledRunTime t \<and> ThrottledRunTime t \<le> kint64max
   \<and> (\<exists>k. ThrottledRunTime t - TimeTicks_epoch = FromSeconds k)
   \<and> (t = TimeTicks_epoch + FromSeconds N \<longrightarrow>
        ThrottledRunTime t = TimeTicks_epoch + FromSeconds (N + 1))
   \<and> (TimeTicks_epoch \<le> t \<longrightarrow>
        ThrottledRunTime t = t + FromSeconds 1 - ((t - TimeTicks_epoch) mod FromSeconds 1))"
proof -
  have sum: "t + kMicrosecondsPerSecond \<le> kint64max"
    using assms(2) by (simp add: FromSeconds_def)
  have upper: "t \<le> kint64max"
    using sum by (simp add: kMicrosecondsPerSecond_def)
  have next_second: "t + kMicrosecondsPerSecond - t smod kMicrosecondsPerSecond \<le> kint64max"
  proof (cases "0 \<le> t")
    case True
    then have "t smod kMicrosecondsPerSecond = t mod kMicrosecondsPerSecond"
      by (simp add: smod_mod_positive kMicrosecondsPerSecond_def)
    then have "0 \<le> t smod kMicrosecondsPerSecond"
      by (simp add: kMicrosecondsPerSecond_def)
    then show ?thesis
      using sum by simp
  next
    case False
    then show ?thesis
      using smod_one_second_bounds [of t]
      by (simp add: kint64max_def kMicrosecondsPerSecond_def)
  qed
  have formula:
    "ThrottledRunTime t = t + kMicrosecondsPerSecond - t smod kMicrosecondsPerSecond"
    using assms(1) upper next_second by (rule ThrottledRunTime_in_range)
  have later: "t < ThrottledRunTime t"
    using smod_one_second_bounds [of t] by (simp add: formula)
  have bounded: "kint64min \<le> ThrottledRunTime t \<and> ThrottledRunTime t \<le> kint64max"
    using next_second later assms(1) by (simp add: formula)
  have "ThrottledRunTime t = kMicrosecondsPerSecond * (t sdiv kMicrosecondsPerSecond + 1)"
    using minus_smod_one_second [of t] by (simp add: formula algebra_simps)
  then have boundary: "\<exists>k. ThrottledRunTime t - TimeTicks_epoch = FromSeconds k"
    by (auto simp: FromSeconds_def TimeTicks_epoch_def mult.commute)
  have whole: "(N * kMicrosecondsPerSecond) smod kMicrosecondsPerSecond = 0"
    by (simp add: signed_modulo_int_def abs_mult kMicrosecondsPerSecond_def)
  have exact: "t = TimeTicks_epoch + FromSeconds N \<longrightarrow>
      ThrottledRunTime t = TimeTicks_epoch + FromSeconds (N + 1)"
  proof
    assume "t = TimeTicks_epoch + FromSeconds N"
    then have t: "t = N * kMicrosecondsPerSecond"
      by (simp add: FromSeconds_def TimeTicks_epoch_def)
    have zero: "t smod kMicrosecondsPerSecond = 0"
      unfolding t by (rule whole)
    have "ThrottledRunTime t = t + kMicrosecondsPerSecond"
      unfolding formula zero by simp
    then show "ThrottledRunTime t = TimeTicks_epoch + FromSeconds (N + 1)"
      by (simp add: t FromSeconds_def TimeTicks_epoch_def algebra_simps)
  qed
  have floor: "TimeTicks_epoch \<le> t \<longrightarrow>
      ThrottledRunTime t = t + FromSeconds 1 - ((t - TimeTicks_epoch) mod FromSeconds 1)"
    by (simp add: formula FromSeconds_def TimeTicks_epoch_def smod_mod_positive
        kMicrosecondsPerSecond_def)
  show ?thesis
    using formula later bounded boundary exact floor
    by (simp add: FromSeconds_def TimeTicks_epoch_def)
qed

theorem ThrottledRunTime_next_boundary_witness:
  "kint64min \<le> 2000000
   \<and> 2000000 + FromSeconds 1 \<le> kint64max
   \<and> 2000000 = TimeTicks_epoch + FromSeconds 2
   \<and> TimeTicks_epoch \<le> 2000000
   \<and> ThrottledRunTime 2000000 = TimeTicks_epoch + FromSeconds 3
   \<and> 2000000 < ThrottledRunTime 2000000"
proof -
  have lower: "kint64min \<le> 2000000"
    by (simp add: kint64min_def)
  have upper: "2000000 + FromSeconds 1 \<le> kint64max"
    by (simp add: FromSeconds_def kMicrosecondsPerSecond_def kint64max_def)
  have whole: "(2000000::int) = TimeTicks_epoch + FromSeconds 2"
    by (simp add: FromSeconds_def TimeTicks_epoch_def kMicrosecondsPerSecond_def)
  have after: "TimeTicks_epoch \<le> 2000000"
    by (simp add: TimeTicks_epoch_def)
  note run = ThrottledRunTime_next_boundary [where t = 2000000 and N = 2, OF lower upper]
  have "ThrottledRunTime 2000000 = TimeTicks_epoch + FromSeconds 3"
    using run whole by simp
  moreover have "2000000 < ThrottledRunTime 2000000"
    using run by blast
  ultimately show ?thesis
    using lower upper whole after by blast
qed

text \<open>
  Two times at which the unrestricted statement fails. The largest time of the range
  is not sent to a strictly later time, whatever the operators do there: the range
  holds no later time. A time before the epoch has a negative truncating remainder:
  0.3 seconds before the epoch the code returns one second after the epoch, where
  the formula read with the flooring \<open>mod\<close> gives the epoch itself.
\<close>

theorem ThrottledRunTime_counterexample:
  "kint64min \<le> kint64max
   \<and> \<not> kint64max < ThrottledRunTime kint64max
   \<and> ThrottledRunTime (- 300000) = 1000000
   \<and> - 300000 + FromSeconds 1 - ((- 300000 - TimeTicks_epoch) mod FromSeconds 1) = 0"
proof -
  have "ThrottledRunTime kint64max \<le> kint64max"
    using int64_in_range by (simp add: ThrottledRunTime_def Let_def)
  moreover have "ThrottledRunTime (- 300000) = 1000000"
    by (simp add: ThrottledRunTime_def FromSeconds_def TimeTicks_epoch_def Let_def
        kMicrosecondsPerSecond_def int64_def signed_modulo_int_def)
  moreover have
    "- 300000 + FromSeconds 1 - ((- 300000 - TimeTicks_epoch) mod FromSeconds 1) = 0"
    by (simp add: FromSeconds_def TimeTicks_epoch_def kMicrosecondsPerSecond_def)
  ultimately show ?thesis
    by (simp add: kint64min_def kint64max_def)
qed

section \<open>Coalescing of pump wake-ups\<close>

lemma armed_pumps_append:
  "armed_pumps (cs @ ds) acc = armed_pumps ds (armed_pumps cs acc)"
  by (induction cs acc rule: armed_pumps.induct) simp_all

lemma pending_pumps_call:
  "pending_pumps (call c s) = armed_pumps [c] (pending_pumps s)"
  by (simp add: pending_pumps_def call_def armed_pumps_append)

lemma MaybeSchedule_unchanged:
  "\<not> is_null (pending_pump_throttled_tasks_runtime s) \<Longrightarrow>
   pending_pump_throttled_tasks_runtime s \<le> ThrottledRunTime u \<Longrightarrow>
   MaybeSchedulePumpThrottledTasksLocked now u s = s"
  by (simp add: MaybeSchedulePumpThrottledTasksLocked_def Let_def)

lemma MaybeSchedule_reschedules:
  "is_null (pending_pump_throttled_tasks_runtime s) \<or>
   ThrottledRunTime u < pending_pump_throttled_tasks_runtime s \<Longrightarrow>
   MaybeSchedulePumpThrottledTasksLocked now u s =
     s\<lparr>pending_pump_throttled_tasks_runtime := ThrottledRunTime u,
       calls := calls s @ [Cancel, PostDelayedTask_pump (ThrottledRunTime u - now)]\<rparr>"
  by (auto simp: MaybeSchedulePumpThrottledTasksLocked_def Let_def call_def)

lemma MaybeSchedule_cases:
  "MaybeSchedulePumpThrottledTasksLocked now u s = s \<or>
   MaybeSchedulePumpThrottledTasksLocked now u s =
     s\<lparr>pending_pump_throttled_tasks_runtime := ThrottledRunTime u,
       calls := calls s @ [Cancel, PostDelayedTask_pump (ThrottledRunTime u - now)]\<rparr>"
  using MaybeSchedule_unchanged [of s u now] MaybeSchedule_reschedules [of s u now]
  by linarith

lemma MaybeSchedule_pending_pumps:
  "at_most_one_pending_pump s \<Longrightarrow>
   at_most_one_pending_pump (MaybeSchedulePumpThrottledTasksLocked now u s)"
  using MaybeSchedule_cases [of now u s]
  by (auto simp: at_most_one_pending_pump_def pending_pumps_def armed_pumps_append)

lemma MaybeSchedule_frame:
  "task_queues (MaybeSchedulePumpThrottledTasksLocked now u s) = task_queues s
   \<and> throttled_queues (MaybeSchedulePumpThrottledTasksLocked now u s) = throttled_queues s
   \<and> task_runner (MaybeSchedulePumpThrottledTasksLocked now u s) = task_runner s"
  using MaybeSchedule_cases [of now u s] by auto

lemma pump_queues_calls:
  "calls (pump_queues qs s) =
     calls s @ map (\<lambda>q. PumpQueue q False) (filter (\<lambda>q. \<not> IsEmpty (task_queues s q)) qs)"
proof (induction qs arbitrary: s)
  case Nil
  then show ?case by simp
next
  case (Cons q qs)
  show ?case
  proof (cases "IsEmpty (task_queues s q)")
    case True
    then show ?thesis by (simp add: Cons.IH)
  next
    case False
    have "task_queues (call (PumpQueue q False) s) = task_queues s"
      by (simp add: call_def)
    with False show ?thesis by (simp add: Cons.IH) (simp add: call_def)
  qed
qed

lemma pump_queues_frame:
  "task_queues (pump_queues qs s) = task_queues s
   \<and> throttled_queues (pump_queues qs s) = throttled_queues s
   \<and> task_runner (pump_queues qs s) = task_runner s
   \<and> pending_pump_throttled_tasks_runtime (pump_queues qs s) = pending_pump_throttled_tasks_runtime s"
  by (induction qs arbitrary: s) (simp_all add: call_def)

lemma armed_pumps_no_timer_calls:
  "\<forall>c \<in> set cs. c \<noteq> Cancel \<and> (\<forall>d. c \<noteq> PostDelayedTask_pump d) \<Longrightarrow> armed_pumps cs acc = acc"
  by (induction cs acc rule: armed_pumps.induct) simp_all

lemma pump_queues_pending_pumps:
  "pending_pumps (pump_queues qs s) = pending_pumps s"
  by (simp add: pending_pumps_def pump_queues_calls armed_pumps_append
      armed_pumps_no_timer_calls)

lemma PumpThrottledTasks_effect:
  "calls (PumpThrottledTasks env s) =
     calls s @ [AdvanceTo (NowTicks env)]
       @ map (\<lambda>q. PumpQueue q False)
           (filter (\<lambda>q. \<not> IsEmpty (task_queues s q)) (throttled_queues s))
       @ [ClearExpiredWakeups]
       @ (case NextScheduledRunTime env of
            None \<Rightarrow> []
          | Some next_run_time \<Rightarrow>
              [Cancel, PostDelayedTask_pump (ThrottledRunTime next_run_time - NowTicks env)])
   \<and> pending_pump_throttled_tasks_runtime (PumpThrottledTasks env s) =
       (case NextScheduledRunTime env of
          None \<Rightarrow> TimeTicks_epoch
        | Some next_run_time \<Rightarrow> ThrottledRunTime next_run_time)
   \<and> task_queues (PumpThrottledTasks env s) = task_queues s
   \<and> throttled_queues (PumpThrottledTasks env s) = throttled_queues s
   \<and> task_runner (PumpThrottledTasks env s) = task_runner s"
proof -
  define s1 where "s1 = s\<lparr>pending_pump_throttled_tasks_runtime := TimeTicks_epoch\<rparr>"
  define s2 where "s2 = call (AdvanceTo (NowTicks env)) s1"
  define s3 where "s3 = pump_queues (throttled_queues s2) s2"
  define s4 where "s4 = call ClearExpiredWakeups s3"
  have run: "PumpThrottledTasks env s =
      (case NextScheduledRunTime env of
         Some t \<Rightarrow> MaybeSchedulePumpThrottledTasksLocked (NowTicks env) t s4
       | None \<Rightarrow> s4)"
    by (simp add: PumpThrottledTasks_def Let_def s1_def s2_def s3_def s4_def split: option.split)
  have s2: "task_queues s2 = task_queues s \<and> throttled_queues s2 = throttled_queues s
      \<and> task_runner s2 = task_runner s \<and> pending_pump_throttled_tasks_runtime s2 = TimeTicks_epoch
      \<and> calls s2 = calls s @ [AdvanceTo (NowTicks env)]"
    by (simp add: s2_def s1_def call_def)
  have s4: "task_queues s4 = task_queues s \<and> throttled_queues s4 = throttled_queues s
      \<and> task_runner s4 = task_runner s \<and> pending_pump_throttled_tasks_runtime s4 = TimeTicks_epoch
      \<and> calls s4 = calls s @ [AdvanceTo (NowTicks env)]
          @ map (\<lambda>q. PumpQueue q False)
              (filter (\<lambda>q. \<not> IsEmpty (task_queues s q)) (throttled_queues s))
          @ [ClearExpiredWakeups]"
    using s2 pump_queues_frame [of "throttled_queues s2" s2]
      pump_queues_calls [of "throttled_queues s2" s2]
    by (simp add: s4_def s3_def call_def)
  show ?thesis
  proof (cases "NextScheduledRunTime env")
    case None
    with run s4 show ?thesis by simp
  next
    case (Some t)
    have "is_null (pending_pump_throttled_tasks_runtime s4)"
      using s4 by (simp add: is_null_def TimeTicks_epoch_def)
    then have "MaybeSchedulePumpThrottledTasksLocked (NowTicks env) t s4 =
        s4\<lparr>pending_pump_throttled_tasks_runtime := ThrottledRunTime t,
          calls := calls s4 @ [Cancel, PostDelayedTask_pump (ThrottledRunTime t - NowTicks env)]\<rparr>"
      by (simp add: MaybeSchedule_reschedules)
    with run s4 Some show ?thesis by simp
  qed
qed

lemma PumpThrottledTasks_pending_pumps:
  "at_most_one_pending_pump s \<Longrightarrow> at_most_one_pending_pump (PumpThrottledTasks env s)"
  using PumpThrottledTasks_effect [of env s]
  by (cases "NextScheduledRunTime env")
     (simp_all add: at_most_one_pending_pump_def pending_pumps_def armed_pumps_append
        armed_pumps_no_timer_calls)


lemma OnTimeDomainHasImmediateWork_frame:
  "task_queues (OnTimeDomainHasImmediateWork env s) = task_queues s
   \<and> throttled_queues (OnTimeDomainHasImmediateWork env s) = throttled_queues s
   \<and> task_runner (OnTimeDomainHasImmediateWork env s) = task_runner s"
  by (simp add: OnTimeDomainHasImmediateWork_def Let_def MaybeSchedule_frame call_def)

lemma OnTimeDomainHasDelayedWork_frame:
  "OnTimeDomainHasDelayedWork env s = Inr s' \<Longrightarrow>
   task_queues s' = task_queues s \<and> throttled_queues s' = throttled_queues s
   \<and> task_runner s' = task_runner s"
  by (auto simp: OnTimeDomainHasDelayedWork_def Let_def MaybeSchedule_frame
      split: option.splits)

lemma Throttle_unfold:
  "Throttle env q s =
     (if q = task_runner s then Inl DCHECK_failed
      else if IsEmpty (task_queues s q) then Inr (throttled_config q s)
      else if HasPendingImmediateWork env
        then Inr (OnTimeDomainHasImmediateWork env (throttled_config q s))
      else OnTimeDomainHasDelayedWork env (throttled_config q s))"
  by (simp add: Throttle_def throttled_config_def SetTimeDomain_def SetPumpPolicy_def
      IsEmpty_def Let_def)

lemma Throttle_frame:
  assumes "Throttle env q s = Inr s'"
  shows "task_queues s' = task_queues (throttled_config q s)
     \<and> throttled_queues s' = throttled_queues (throttled_config q s)
     \<and> task_runner s' = task_runner s"
proof -
  have tr: "task_runner (throttled_config q s) = task_runner s"
    by (simp add: throttled_config_def)
  from assms show ?thesis
    using OnTimeDomainHasImmediateWork_frame [of env "throttled_config q s"]
      OnTimeDomainHasDelayedWork_frame [of env "throttled_config q s" s'] tr
    by (auto simp: Throttle_unfold split: if_splits)
qed

lemma set_insert_member: "q \<in> set (set_insert q qs)"
  by (simp add: set_insert_def set_insort_key)




lemma Unthrottle_unfold:
  "Unthrottle q s =
     s\<lparr>throttled_queues := set_erase q (throttled_queues s),
       task_queues := (task_queues s)
         (q := (task_queues s q)\<lparr>time_domain := real_time_domain, pump_policy := AUTO\<rparr>)\<rparr>"
  by (simp add: Unthrottle_def SetTimeDomain_def SetPumpPolicy_def Let_def)





lemma pending_pumps_throttled_config:
  "pending_pumps (throttled_config q s) = pending_pumps s"
  by (simp add: pending_pumps_def throttled_config_def)

lemma OnTimeDomainHasImmediateWork_pending_pumps:
  "at_most_one_pending_pump s \<Longrightarrow>
   at_most_one_pending_pump (OnTimeDomainHasImmediateWork env s)"
  by (simp add: OnTimeDomainHasImmediateWork_def Let_def MaybeSchedule_pending_pumps)
     (simp add: at_most_one_pending_pump_def pending_pumps_call)

lemma OnTimeDomainHasDelayedWork_pending_pumps:
  "OnTimeDomainHasDelayedWork env s = Inr s' \<Longrightarrow> at_most_one_pending_pump s \<Longrightarrow>
   at_most_one_pending_pump s'"
  by (auto simp: OnTimeDomainHasDelayedWork_def Let_def MaybeSchedule_pending_pumps
      split: option.splits)

lemma Throttle_pending_pumps:
  assumes "Throttle env q s = Inr s'" and "at_most_one_pending_pump s"
  shows "at_most_one_pending_pump s'"
proof -
  have cfg: "at_most_one_pending_pump (throttled_config q s)"
    using assms(2) by (simp add: at_most_one_pending_pump_def pending_pumps_throttled_config)
  from assms(1) show ?thesis
    using cfg OnTimeDomainHasImmediateWork_pending_pumps [OF cfg, of env]
      OnTimeDomainHasDelayedWork_pending_pumps [of env "throttled_config q s" s']
    by (auto simp: Throttle_unfold split: if_splits)
qed

lemma helper_call_pending_pumps:
  "helper_call c s = Inr s' \<Longrightarrow> at_most_one_pending_pump s \<Longrightarrow>
   at_most_one_pending_pump s'"
proof (induction c s rule: helper_call.induct)
  case (1 env q s)
  then show ?case by (simp add: Throttle_pending_pumps)
next
  case (2 env q s)
  then show ?case by (auto simp: Unthrottle_unfold at_most_one_pending_pump_def pending_pumps_def)
next
  case (3 env s)
  then show ?case by (auto simp: OnTimeDomainHasImmediateWork_pending_pumps)
next
  case (4 env s)
  then show ?case by (simp add: OnTimeDomainHasDelayedWork_pending_pumps)
next
  case (5 env s)
  then show ?case by (auto simp: PumpThrottledTasks_pending_pumps)
qed

lemma helper_run_pending_pumps:
  "helper_run cs s = Inr s' \<Longrightarrow> at_most_one_pending_pump s \<Longrightarrow>
   at_most_one_pending_pump s'"
proof (induction cs arbitrary: s)
  case Nil
  then show ?case by simp
next
  case (Cons c cs)
  then show ?case
    by (auto split: sum.splits dest: helper_call_pending_pumps)
qed

text \<open>
  C2. \<open>MaybeSchedulePumpThrottledTasksLocked now u\<close> computes
  \<open>ThrottledRunTime u\<close> and (re)schedules the pump callback if and only if no pump is
  pending (the marker is null) or the throttled run-time is strictly earlier than the
  pending one: it then records the new run-time, cancels the pump posted before and
  posts one with delay \<open>ThrottledRunTime u - now\<close>, which is the only pump armed. A
  request whose throttled time is at or after the pending one changes nothing. So at
  most one pump is armed after the call if at most one was before, and along every run
  of the helper's entry points.
\<close>

theorem MaybeSchedulePumpThrottledTasksLocked_coalesces:
  "(MaybeSchedulePumpThrottledTasksLocked now u s \<noteq> s \<longleftrightarrow>
      is_null (pending_pump_throttled_tasks_runtime s) \<or>
      ThrottledRunTime u < pending_pump_throttled_tasks_runtime s)
   \<and> (is_null (pending_pump_throttled_tasks_runtime s) \<or>
       ThrottledRunTime u < pending_pump_throttled_tasks_runtime s \<longrightarrow>
         MaybeSchedulePumpThrottledTasksLocked now u s =
           s\<lparr>pending_pump_throttled_tasks_runtime := ThrottledRunTime u,
             calls := calls s @ [Cancel, PostDelayedTask_pump (ThrottledRunTime u - now)]\<rparr>
         \<and> pending_pumps (MaybeSchedulePumpThrottledTasksLocked now u s) = [ThrottledRunTime u - now])
   \<and> (\<not> is_null (pending_pump_throttled_tasks_runtime s) \<and>
       pending_pump_throttled_tasks_runtime s \<le> ThrottledRunTime u \<longrightarrow>
         MaybeSchedulePumpThrottledTasksLocked now u s = s)
   \<and> (at_most_one_pending_pump s \<longrightarrow>
         at_most_one_pending_pump (MaybeSchedulePumpThrottledTasksLocked now u s))
   \<and> (\<forall>cs s'. helper_run cs s = Inr s' \<and> at_most_one_pending_pump s \<longrightarrow>
         at_most_one_pending_pump s')"
proof -
  let ?s' = "MaybeSchedulePumpThrottledTasksLocked now u s"
  let ?go = "is_null (pending_pump_throttled_tasks_runtime s) \<or>
      ThrottledRunTime u < pending_pump_throttled_tasks_runtime s"
  have resched: "?go \<longrightarrow> ?s' =
           s\<lparr>pending_pump_throttled_tasks_runtime := ThrottledRunTime u,
             calls := calls s @ [Cancel, PostDelayedTask_pump (ThrottledRunTime u - now)]\<rparr>"
    using MaybeSchedule_reschedules [of s u now] by blast
  have armed: "?go \<longrightarrow> pending_pumps ?s' = [ThrottledRunTime u - now]"
  proof
    assume ?go
    with resched have "calls ?s' = calls s @ [Cancel, PostDelayedTask_pump (ThrottledRunTime u - now)]"
      by simp
    then show "pending_pumps ?s' = [ThrottledRunTime u - now]"
      by (simp add: pending_pumps_def armed_pumps_append)
  qed
  have same: "\<not> ?go \<longrightarrow> ?s' = s"
    using MaybeSchedule_unchanged [of s u now] by auto
  have differs: "?go \<longrightarrow> ?s' \<noteq> s"
  proof
    assume ?go
    with resched have "calls ?s' = calls s @ [Cancel, PostDelayedTask_pump (ThrottledRunTime u - now)]"
      by simp
    then have "calls ?s' \<noteq> calls s" by simp
    then show "?s' \<noteq> s" by auto
  qed
  have runs: "\<forall>cs s'. helper_run cs s = Inr s' \<and> at_most_one_pending_pump s \<longrightarrow>
      at_most_one_pending_pump s'"
    using helper_run_pending_pumps by blast
  show ?thesis
    using resched armed same differs runs MaybeSchedule_pending_pumps [of s now u]
    by auto
qed

lemma ThrottledRunTime_examples:
  "ThrottledRunTime 2300000 = 3000000" "ThrottledRunTime 3500000 = 4000000"
  "ThrottledRunTime 1200000 = 2000000" "ThrottledRunTime 100000 = 1000000"
  by (simp_all add: ThrottledRunTime_def int64_def FromSeconds_def TimeTicks_epoch_def
      kMicrosecondsPerSecond_def)

lemma fresh_helper_pumps: "at_most_one_pending_pump fresh_helper"
  by (simp add: at_most_one_pending_pump_def pending_pumps_def fresh_helper_def)

lemma Throttle_example: "Throttle delayed_env 2 fresh_helper = Inr throttled_helper"
  by (simp add: Throttle_unfold fresh_helper_def delayed_env_def throttled_helper_def
      throttled_config_def IsEmpty_def idle_queue_def OnTimeDomainHasDelayedWork_def
      MaybeSchedulePumpThrottledTasksLocked_def is_null_def call_def set_insert_def Let_def
      ThrottledRunTime_examples)

lemma PumpThrottledTasks_example:
  "PumpThrottledTasks delayed_env throttled_helper = pumped_helper"
  by (simp add: PumpThrottledTasks_def delayed_env_def throttled_helper_def pumped_helper_def
      IsEmpty_def idle_queue_def MaybeSchedulePumpThrottledTasksLocked_def is_null_def call_def
      TimeTicks_epoch_def Let_def ThrottledRunTime_examples)

theorem MaybeSchedulePumpThrottledTasksLocked_coalesces_witness:
  "is_null (pending_pump_throttled_tasks_runtime fresh_helper)
   \<and> MaybeSchedulePumpThrottledTasksLocked 100000 2300000 fresh_helper \<noteq> fresh_helper
   \<and> pending_pumps (MaybeSchedulePumpThrottledTasksLocked 100000 2300000 fresh_helper) = [2900000]
   \<and> \<not> is_null (pending_pump_throttled_tasks_runtime throttled_helper)
   \<and> pending_pump_throttled_tasks_runtime throttled_helper \<le> ThrottledRunTime 3500000
   \<and> MaybeSchedulePumpThrottledTasksLocked 100000 3500000 throttled_helper = throttled_helper
   \<and> ThrottledRunTime 1200000 < pending_pump_throttled_tasks_runtime throttled_helper
   \<and> pending_pumps (MaybeSchedulePumpThrottledTasksLocked 100000 1200000 throttled_helper) = [1900000]
   \<and> at_most_one_pending_pump fresh_helper
   \<and> helper_run [(delayed_env, CallThrottle 2), (delayed_env, CallPumpThrottledTasks)] fresh_helper
       = Inr pumped_helper
   \<and> at_most_one_pending_pump pumped_helper"
proof -
  note fresh = MaybeSchedulePumpThrottledTasksLocked_coalesces
      [where s = fresh_helper and u = 2300000 and now = 100000]
  note later = MaybeSchedulePumpThrottledTasksLocked_coalesces
      [where s = throttled_helper and u = 3500000 and now = 100000]
  note sooner = MaybeSchedulePumpThrottledTasksLocked_coalesces
      [where s = throttled_helper and u = 1200000 and now = 100000]
  have null: "is_null (pending_pump_throttled_tasks_runtime fresh_helper)"
    by (simp add: is_null_def fresh_helper_def)
  have armed: "\<not> is_null (pending_pump_throttled_tasks_runtime throttled_helper)"
    by (simp add: is_null_def throttled_helper_def)
  have at_or_after: "pending_pump_throttled_tasks_runtime throttled_helper \<le> ThrottledRunTime 3500000"
    by (simp add: throttled_helper_def ThrottledRunTime_examples)
  have earlier: "ThrottledRunTime 1200000 < pending_pump_throttled_tasks_runtime throttled_helper"
    by (simp add: throttled_helper_def ThrottledRunTime_examples)
  have run: "helper_run [(delayed_env, CallThrottle 2), (delayed_env, CallPumpThrottledTasks)]
      fresh_helper = Inr pumped_helper"
    using Throttle_example PumpThrottledTasks_example by simp
  have scheduled: "MaybeSchedulePumpThrottledTasksLocked 100000 2300000 fresh_helper \<noteq> fresh_helper"
    using fresh null by blast
  have "pending_pumps (MaybeSchedulePumpThrottledTasksLocked 100000 2300000 fresh_helper) =
      [ThrottledRunTime 2300000 - 100000]"
    using fresh null by blast
  then have first: "pending_pumps (MaybeSchedulePumpThrottledTasksLocked 100000 2300000 fresh_helper)
      = [2900000]"
    by (simp add: ThrottledRunTime_examples)
  have kept: "MaybeSchedulePumpThrottledTasksLocked 100000 3500000 throttled_helper = throttled_helper"
    using later armed at_or_after by blast
  have "pending_pumps (MaybeSchedulePumpThrottledTasksLocked 100000 1200000 throttled_helper) =
      [ThrottledRunTime 1200000 - 100000]"
    using sooner earlier by blast
  then have moved: "pending_pumps (MaybeSchedulePumpThrottledTasksLocked 100000 1200000 throttled_helper)
      = [1900000]"
    by (simp add: ThrottledRunTime_examples)
  have one: "at_most_one_pending_pump pumped_helper"
    using fresh run fresh_helper_pumps by blast
  show ?thesis
    using null scheduled first armed at_or_after kept earlier moved fresh_helper_pumps run one
    by blast
qed

section \<open>The pump cycle\<close>

text \<open>
  C6. \<open>PumpThrottledTasks\<close> clears the pending-pump marker, advances the throttled
  domain's clock to now, pumps every throttled queue that is not empty, in the order of
  the set and whatever the run-times of its tasks, skipping the empty ones, clears the
  expired wake-ups of the domain, and then, if the domain still reports a next run-time,
  schedules the next coalesced pump for the throttled form of that run-time; since the
  marker was cleared first, that request is never dropped. Nothing else changes.
\<close>

theorem PumpThrottledTasks_sequence:
  "calls (PumpThrottledTasks env s) =
     calls s @ [AdvanceTo (NowTicks env)]
       @ map (\<lambda>q. PumpQueue q False)
           (filter (\<lambda>q. \<not> IsEmpty (task_queues s q)) (throttled_queues s))
       @ [ClearExpiredWakeups]
       @ (case NextScheduledRunTime env of
            None \<Rightarrow> []
          | Some next_run_time \<Rightarrow>
              [Cancel, PostDelayedTask_pump (ThrottledRunTime next_run_time - NowTicks env)])
   \<and> pending_pump_throttled_tasks_runtime (PumpThrottledTasks env s) =
       (case NextScheduledRunTime env of
          None \<Rightarrow> TimeTicks_epoch
        | Some next_run_time \<Rightarrow> ThrottledRunTime next_run_time)
   \<and> (case NextScheduledRunTime env of
         None \<Rightarrow> True
       | Some next_run_time \<Rightarrow>
           PumpThrottledTasks env s =
             MaybeSchedulePumpThrottledTasksLocked (NowTicks env) next_run_time
               (call ClearExpiredWakeups
                 (pump_queues (throttled_queues s)
                   (call (AdvanceTo (NowTicks env))
                     (s\<lparr>pending_pump_throttled_tasks_runtime := TimeTicks_epoch\<rparr>)))))
   \<and> task_queues (PumpThrottledTasks env s) = task_queues s
   \<and> throttled_queues (PumpThrottledTasks env s) = throttled_queues s
   \<and> task_runner (PumpThrottledTasks env s) = task_runner s"
proof -
  have "PumpThrottledTasks env s =
      MaybeSchedulePumpThrottledTasksLocked (NowTicks env) t
        (call ClearExpiredWakeups
          (pump_queues (throttled_queues s)
            (call (AdvanceTo (NowTicks env))
              (s\<lparr>pending_pump_throttled_tasks_runtime := TimeTicks_epoch\<rparr>))))"
    if "NextScheduledRunTime env = Some t" for t
    using that by (simp add: PumpThrottledTasks_def Let_def call_def)
  then show ?thesis
    using PumpThrottledTasks_effect [of env s]
    by (simp split: option.split)
qed

theorem PumpThrottledTasks_sequence_witness:
  "calls (PumpThrottledTasks delayed_env throttled_helper) =
     [Cancel, PostDelayedTask_pump 2900000, AdvanceTo 100000, PumpQueue 2 False,
      ClearExpiredWakeups, Cancel, PostDelayedTask_pump 2900000]
   \<and> pending_pump_throttled_tasks_runtime (PumpThrottledTasks delayed_env throttled_helper)
       = 3000000"
proof -
  note pump = PumpThrottledTasks_sequence [of delayed_env throttled_helper]
  show ?thesis
    using pump [THEN conjunct1] pump [THEN conjunct2, THEN conjunct1]
    by (simp add: delayed_env_def throttled_helper_def IsEmpty_def idle_queue_def
        ThrottledRunTime_examples)
qed

section \<open>Throttle and Unthrottle\<close>

text \<open>
  C7. \<open>Throttle\<close> rejects the control queue: the DCHECK fails. For any other queue it
  adds the queue to \<^verbatim>\<open>throttled_queues_\<close>, sets its time domain to the throttled domain
  and its pump policy to MANUAL, and, if the queue is not empty, at once takes the
  immediate-work notification path when the queue has pending immediate work and the
  delayed-work path otherwise. Whenever it returns, the queue is a member of the set,
  on the throttled domain and pumped manually.
\<close>

theorem Throttle_contract:
  "(q = task_runner s \<longrightarrow> Throttle env q s = Inl DCHECK_failed)
   \<and> (q \<noteq> task_runner s \<longrightarrow>
        Throttle env q s =
          (if IsEmpty (task_queues s q) then Inr (throttled_config q s)
           else if HasPendingImmediateWork env
             then Inr (OnTimeDomainHasImmediateWork env (throttled_config q s))
           else OnTimeDomainHasDelayedWork env (throttled_config q s)))
   \<and> (\<forall>s'. Throttle env q s = Inr s' \<longrightarrow>
        q \<noteq> task_runner s
        \<and> q \<in> set (throttled_queues s')
        \<and> time_domain (task_queues s' q) = throttled_time_domain
        \<and> pump_policy (task_queues s' q) = MANUAL)"
proof -
  have "q \<noteq> task_runner s \<and> q \<in> set (throttled_queues s')
      \<and> time_domain (task_queues s' q) = throttled_time_domain
      \<and> pump_policy (task_queues s' q) = MANUAL"
    if "Throttle env q s = Inr s'" for s'
  proof -
    from that have "q \<noteq> task_runner s"
      by (auto simp: Throttle_unfold)
    then show ?thesis
      using Throttle_frame [OF that]
      by (simp add: throttled_config_def set_insert_member)
  qed
  then show ?thesis
    by (simp add: Throttle_unfold)
qed

theorem Throttle_contract_witness:
  "Throttle delayed_env (task_runner fresh_helper) fresh_helper = Inl DCHECK_failed
   \<and> 2 \<noteq> task_runner fresh_helper
   \<and> Throttle delayed_env 2 fresh_helper = Inr throttled_helper
   \<and> 2 \<in> set (throttled_queues throttled_helper)
   \<and> time_domain (task_queues throttled_helper 2) = throttled_time_domain
   \<and> pump_policy (task_queues throttled_helper 2) = MANUAL"
  using Throttle_contract [where q = "task_runner fresh_helper" and s = fresh_helper and env = delayed_env]
    Throttle_contract [where q = 2 and s = fresh_helper and env = delayed_env]
    Throttle_example
  by (simp add: fresh_helper_def)




text \<open>
  C10. \<open>Unthrottle\<close> is unconditional and idempotent: for every queue, also one that is
  not in \<^verbatim>\<open>throttled_queues_\<close> (erasing an absent element leaves the set as it is), it
  puts the queue on the real time domain with pump policy AUTO, and unthrottling twice
  leaves the same state as unthrottling once.
\<close>

theorem Unthrottle_idempotent:
  "Unthrottle q (Unthrottle q s) = Unthrottle q s
   \<and> time_domain (task_queues (Unthrottle q s) q) = real_time_domain
   \<and> pump_policy (task_queues (Unthrottle q s) q) = AUTO
   \<and> q \<notin> set (throttled_queues (Unthrottle q s))
   \<and> (q \<notin> set (throttled_queues s) \<longrightarrow>
        throttled_queues (Unthrottle q s) = throttled_queues s)"
  by (simp add: Unthrottle_unfold set_erase_def)

theorem Unthrottle_idempotent_witness:
  "3 \<notin> set (throttled_queues throttled_helper)
   \<and> throttled_queues (Unthrottle 3 throttled_helper) = throttled_queues throttled_helper
   \<and> Unthrottle 3 (Unthrottle 3 throttled_helper) = Unthrottle 3 throttled_helper"
  using Unthrottle_idempotent [of 3 throttled_helper]
  by (simp add: throttled_helper_def)

section \<open>Real time domain\<close>

text \<open>
  C4. \<open>MaybeAdvanceTime\<close> returns true if and only if the earliest scheduled run-time
  exists and is at or before the current time. Otherwise it returns false; when the
  run-time exists and lies in the future it first asks the manager for a delayed
  wake-up with delay \<open>next_run_time - now\<close>, which is the wake-up for exactly that
  run-time. It makes no request when it returns true or when no run-time exists.
\<close>

theorem MaybeAdvanceTime_decides:
  "(fst (MaybeAdvanceTime env m) \<longleftrightarrow>
      (\<exists>t. NextScheduledRunTime env = Some t \<and> t \<le> NowTicks env))
   \<and> (\<forall>t. NextScheduledRunTime env = Some t \<and> NowTicks env < t \<longrightarrow>
        MaybeAdvanceTime env m =
          (False, m @ [MaybeScheduleDelayedWork (NowTicks env) (t - NowTicks env)])
        \<and> ComputeDelayedRunTime (NowTicks env) (t - NowTicks env) = t)
   \<and> (NextScheduledRunTime env = None \<longrightarrow> MaybeAdvanceTime env m = (False, m))
   \<and> (fst (MaybeAdvanceTime env m) \<longrightarrow> snd (MaybeAdvanceTime env m) = m)"
  by (auto simp: MaybeAdvanceTime_def ComputeDelayedRunTime_def Let_def split: option.splits)

theorem MaybeAdvanceTime_decides_witness:
  "NextScheduledRunTime delayed_env = Some 2300000 \<and> NowTicks delayed_env < 2300000
   \<and> MaybeAdvanceTime delayed_env [] = (False, [MaybeScheduleDelayedWork 100000 2200000])
   \<and> \<not> fst (MaybeAdvanceTime delayed_env [])"
  using MaybeAdvanceTime_decides [of delayed_env "[]"]
  by (simp add: delayed_env_def)

section \<open>Ordered maps\<close>

lemma keys_map_insert:
  "fst ` set (map_insert e m) = insert (fst e) (fst ` set m)"
  by (induction m) auto

lemma set_map_insert_fresh:
  "fst e \<notin> fst ` set m \<Longrightarrow> set (map_insert e m) = insert e (set m)"
  by (induction m) auto

lemma sorted_map_insert:
  "sorted_wrt (<) (map fst m) \<Longrightarrow> sorted_wrt (<) (map fst (map_insert e m))"
proof (induction m)
  case Nil
  then show ?case by simp
next
  case (Cons x m)
  have "fst x < k" if "k \<in> fst ` set (map_insert e m)" "fst x < fst e" for k
    using that Cons.prems by (auto simp: keys_map_insert)
  with Cons show ?case by auto
qed

lemma set_map_erase: "set (map_erase k m) = {e \<in> set m. fst e \<noteq> k}"
  by (auto simp: map_erase_def)

lemma sorted_map_erase:
  "sorted_wrt (<) (map fst m) \<Longrightarrow> sorted_wrt (<) (map fst (map_erase k m))"
  by (induction m) (auto simp: map_erase_def)

lemma sorted_hd_least:
  fixes m :: "('k::linorder \<times> 'v) list"
  shows "sorted_wrt (<) (map fst m) \<Longrightarrow> e \<in> set m \<Longrightarrow> fst (hd m) \<le> fst e"
  by (cases m) auto

lemma sorted_tl_erase:
  fixes m :: "('k::linorder \<times> 'v) list"
  shows "sorted_wrt (<) (map fst m) \<Longrightarrow> m \<noteq> [] \<Longrightarrow> tl m = map_erase (fst (hd m)) m"
proof (cases m)
  case Nil
  then show "m \<noteq> [] \<Longrightarrow> ?thesis" by simp
next
  case (Cons x xs)
  assume "sorted_wrt (<) (map fst m)"
  with Cons have "\<forall>e \<in> set xs. fst e \<noteq> fst x" by auto
  then have "filter (\<lambda>e. fst e \<noteq> fst x) xs = xs" by (simp add: filter_id_conv)
  with Cons show ?thesis by (simp add: map_erase_def)
qed

lemma sorted_keys_unique:
  fixes m :: "('k::linorder \<times> 'v) list"
  shows "sorted_wrt (<) (map fst m) \<Longrightarrow> (k, v) \<in> set m \<Longrightarrow> (k, v') \<in> set m \<Longrightarrow> v = v'"
  by (induction m) force+

lemma sorted_map_of:
  fixes m :: "('k::linorder \<times> 'v) list"
  shows "sorted_wrt (<) (map fst m) \<Longrightarrow> map_of m k = Some v \<longleftrightarrow> (k, v) \<in> set m"
proof -
  assume "sorted_wrt (<) (map fst m)"
  then have "distinct (map fst m)"
    by (induction m) auto
  then show ?thesis by simp
qed

lemma set_map_insert:
  fixes m :: "('k::linorder \<times> 'v) list"
  assumes "sorted_wrt (<) (map fst m)"
  shows "set (map_insert e m) = (if fst e \<in> fst ` set m then set m else insert e (set m))"
  using assms
proof (induction m)
  case Nil
  then show ?case by simp
next
  case (Cons x m)
  then have "\<forall>y \<in> set m. fst x < fst y" and "sorted_wrt (<) (map fst m)"
    by simp_all
  with Cons.IH show ?case by (auto simp: rev_image_eqI)
qed

lemma sorted_set_tl:
  fixes m :: "('k::linorder \<times> 'v) list"
  assumes "sorted_wrt (<) (map fst m)" and "m \<noteq> []"
  shows "set (tl m) = set m - {hd m}"
proof (cases m)
  case Nil
  with assms(2) show ?thesis by simp
next
  case (Cons x xs)
  with assms(1) have "\<forall>y \<in> set xs. fst x < fst y" by simp
  then have "x \<notin> set xs" by auto
  with Cons show ?thesis by simp
qed

section \<open>The registration invariant\<close>

lemma GetFront_Some:
  "GetFrontTaskEnqueueOrder w = Some k \<longleftrightarrow>
     (queued_tasks w \<noteq> [] \<and> fst (hd (queued_tasks w)) = k)"
  by (cases "queued_tasks w") (auto simp: GetFrontTaskEnqueueOrder_def)

lemma GetFront_None:
  "GetFrontTaskEnqueueOrder w = None \<longleftrightarrow> queued_tasks w = []"
  by (cases "queued_tasks w") (auto simp: GetFrontTaskEnqueueOrder_def)

lemma front_in_orders:
  assumes "GetFrontTaskEnqueueOrder (work_queues s q) = Some k"
  shows "k \<in> fst ` set (queued_tasks (work_queues s q))" and "k \<in> orders s"
proof -
  from assms have "hd (queued_tasks (work_queues s q)) \<in> set (queued_tasks (work_queues s q))"
    and "fst (hd (queued_tasks (work_queues s q))) = k"
    by (simp_all add: GetFront_Some)
  then show "k \<in> fst ` set (queued_tasks (work_queues s q))" by force
  then show "k \<in> orders s" by (auto simp: orders_def)
qed

lemma entries_orders: "(k, q) \<in> entries s i \<Longrightarrow> k \<in> orders s"
  by (auto simp: entries_def dest: front_in_orders(2))

lemma OnPushQueue_result:
  assumes "OnPushQueue q s = Inr s'"
  shows "\<exists>k. GetFrontTaskEnqueueOrder (work_queues s q) = Some k
      \<and> work_queue_set_index (work_queues s q) < length (enqueue_order_to_work_queue_maps s)
      \<and> s' = s\<lparr>enqueue_order_to_work_queue_maps :=
            (enqueue_order_to_work_queue_maps s)
              [work_queue_set_index (work_queues s q) :=
                 map_insert (k, q)
                   (enqueue_order_to_work_queue_maps s ! work_queue_set_index (work_queues s q))]\<rparr>"
  using assms by (auto simp: OnPushQueue_def Let_def split: option.splits if_splits)

lemma queues_ok_push:
  assumes ok: "queues_ok s"
    and fresh: "\<forall>k \<in> orders s. k < fst task"
    and heap: "work_queues s1 = (work_queues s)
      (q := (work_queues s q)\<lparr>queued_tasks := queued_tasks (work_queues s q) @ [task]\<rparr>)"
  shows "queues_ok s1"
  unfolding queues_ok_def
proof (intro conjI allI impI)
  have old: "fst t < fst task" if "t \<in> set (queued_tasks (work_queues s q'))" for t q'
    using fresh that by (auto simp: orders_def)
  fix q'
  show "sorted_wrt (<) (map fst (queued_tasks (work_queues s1 q')))"
    using ok old [of _ q] by (auto simp: queues_ok_def heap sorted_wrt_append)
  fix q2 t1 t2
  assume a: "t1 \<in> set (queued_tasks (work_queues s1 q'))
      \<and> t2 \<in> set (queued_tasks (work_queues s1 q2)) \<and> fst t1 = fst t2"
  have uniq: "q' = q2" if "t1 \<in> set (queued_tasks (work_queues s q'))"
      "t2 \<in> set (queued_tasks (work_queues s q2))"
    using ok a that unfolding queues_ok_def by blast
  have m1: "t1 \<in> set (queued_tasks (work_queues s q')) \<or> (q' = q \<and> t1 = task)"
    using a by (auto simp: heap split: if_splits)
  have m2: "t2 \<in> set (queued_tasks (work_queues s q2)) \<or> (q2 = q \<and> t2 = task)"
    using a by (auto simp: heap split: if_splits)
  from m1 m2 show "q' = q2"
    using uniq old [of t1 q'] old [of t2 q2] a by auto
qed


lemma no_entry_of_queue:
  assumes "maps_ok s" and "j < length (enqueue_order_to_work_queue_maps s)"
    and "work_queue_set_index (work_queues s q) \<noteq> j
       \<or> GetFrontTaskEnqueueOrder (work_queues s q) = None"
  shows "{e \<in> set (enqueue_order_to_work_queue_maps s ! j). snd e \<noteq> q}
     = set (enqueue_order_to_work_queue_maps s ! j)"
  using assms by (auto simp: maps_ok_def entries_def)

lemma entry_of_queue:
  assumes "maps_ok s" and "GetFrontTaskEnqueueOrder (work_queues s q) = Some k"
    and "work_queue_set_index (work_queues s q) = i"
    and "i < length (enqueue_order_to_work_queue_maps s)"
  shows "(k, q) \<in> set (enqueue_order_to_work_queue_maps s ! i)"
    and "{e \<in> set (enqueue_order_to_work_queue_maps s ! i). fst e \<noteq> k}
       = {e \<in> set (enqueue_order_to_work_queue_maps s ! i). snd e \<noteq> q}"
proof -
  let ?m = "enqueue_order_to_work_queue_maps s ! i"
  have set: "set ?m = entries s i" and sorted: "sorted_wrt (<) (map fst ?m)"
    using assms(1,4) by (simp_all add: maps_ok_def)
  show in_map: "(k, q) \<in> set ?m"
    using assms(2,3) by (simp add: set entries_def)
  have "snd e = q" if "e \<in> set ?m" "fst e = k" for e
  proof -
    from that have "(k, snd e) \<in> set ?m"
      by (metis prod.collapse)
    then show ?thesis
      using sorted_keys_unique [OF sorted, of k "snd e" q] in_map by simp
  qed
  moreover have "fst e = k" if "e \<in> set ?m" "snd e = q" for e
  proof -
    from that(1) have "e \<in> entries s i" by (simp add: set)
    then have "GetFrontTaskEnqueueOrder (work_queues s (snd e)) = Some (fst e)"
      by (auto simp: entries_def)
    with that(2) assms(2) show ?thesis by simp
  qed
  ultimately show "{e \<in> set ?m. fst e \<noteq> k} = {e \<in> set ?m. snd e \<noteq> q}"
    by blast
qed

lemma maps_ok_moved:
  assumes ok: "maps_ok s"
    and heap: "work_queues s' = (work_queues s)(q := w)"
    and len: "length (enqueue_order_to_work_queue_maps s') = length (enqueue_order_to_work_queue_maps s)"
    and sorted: "\<forall>i < length (enqueue_order_to_work_queue_maps s).
        sorted_wrt (<) (map fst (enqueue_order_to_work_queue_maps s' ! i))"
    and sets: "\<forall>i < length (enqueue_order_to_work_queue_maps s).
        set (enqueue_order_to_work_queue_maps s' ! i) =
          {e \<in> set (enqueue_order_to_work_queue_maps s ! i). snd e \<noteq> q}
          \<union> {(k, q') . q' = q \<and> work_queue_set_index w = i \<and> GetFrontTaskEnqueueOrder w = Some k}"
    and index: "queued_tasks w \<noteq> [] \<longrightarrow>
        work_queue_set_index w < length (enqueue_order_to_work_queue_maps s)"
  shows "maps_ok s'"
proof -
  have "entries s' i = {e \<in> entries s i. snd e \<noteq> q}
      \<union> {(k, q') . q' = q \<and> work_queue_set_index w = i \<and> GetFrontTaskEnqueueOrder w = Some k}"
    for i
    by (auto simp: entries_def heap)
  moreover have "set (enqueue_order_to_work_queue_maps s ! i) = entries s i"
    if "i < length (enqueue_order_to_work_queue_maps s)" for i
    using ok that by (simp add: maps_ok_def)
  ultimately have "set (enqueue_order_to_work_queue_maps s' ! i) = entries s' i"
    if "i < length (enqueue_order_to_work_queue_maps s)" for i
    using sets that by simp
  moreover have "work_queue_set_index (work_queues s' q') < length (enqueue_order_to_work_queue_maps s')"
    if "queued_tasks (work_queues s' q') \<noteq> []" for q'
    using that ok index by (auto simp: heap len maps_ok_def split: if_splits)
  ultimately show ?thesis
    using sorted by (simp add: maps_ok_def len)
qed

lemma fresh_key:
  assumes ok: "maps_ok s" and q': "queues_ok s'"
    and heap: "work_queues s' = (work_queues s)(q := w)"
    and front: "GetFrontTaskEnqueueOrder w = Some k"
    and i: "i < length (enqueue_order_to_work_queue_maps s)"
  shows "k \<notin> fst ` {e \<in> set (enqueue_order_to_work_queue_maps s ! i). snd e \<noteq> q}"
proof
  assume "k \<in> fst ` {e \<in> set (enqueue_order_to_work_queue_maps s ! i). snd e \<noteq> q}"
  then obtain q2 where e: "(k, q2) \<in> set (enqueue_order_to_work_queue_maps s ! i)" and ne: "q2 \<noteq> q"
    by auto
  from e ok i have "GetFrontTaskEnqueueOrder (work_queues s q2) = Some k"
    by (simp add: maps_ok_def entries_def)
  then have "k \<in> fst ` set (queued_tasks (work_queues s q2))"
    by (rule front_in_orders(1))
  then obtain t2 where t2: "t2 \<in> set (queued_tasks (work_queues s' q2))" "fst t2 = k"
    using ne by (auto simp: heap)
  have "work_queues s' q = w" by (simp add: heap)
  with front have "k \<in> fst ` set (queued_tasks (work_queues s' q))"
    using front_in_orders(1) [of s' q k] by simp
  then obtain t where t: "t \<in> set (queued_tasks (work_queues s' q))" "fst t = k"
    by auto
  from q' t t2 have "q = q2"
    unfolding queues_ok_def by (metis (no_types, lifting))
  with ne show False by simp
qed


lemma split_entries:
  assumes "maps_ok s" and "i < length (enqueue_order_to_work_queue_maps s)"
  shows "set (enqueue_order_to_work_queue_maps s ! i) =
     {e \<in> set (enqueue_order_to_work_queue_maps s ! i). snd e \<noteq> q}
     \<union> {(k, q') . q' = q \<and> work_queue_set_index (work_queues s q) = i
            \<and> GetFrontTaskEnqueueOrder (work_queues s q) = Some k}"
  using assms by (auto simp: maps_ok_def entries_def)

lemma queues_ok_same_tasks:
  assumes "queues_ok s"
    and "\<forall>q. queued_tasks (work_queues s' q) = queued_tasks (work_queues s q)"
  shows "queues_ok s'"
  using assms by (simp add: queues_ok_def)

lemma orders_same_tasks:
  assumes "\<forall>q. queued_tasks (work_queues s' q) = queued_tasks (work_queues s q)"
  shows "orders s' = orders s"
  using assms by (simp add: orders_def)

lemma orders_split:
  "orders s = fst ` set (queued_tasks (work_queues s q))
     \<union> (\<Union>q' \<in> - {q}. fst ` set (queued_tasks (work_queues s q')))"
  unfolding orders_def by blast

lemma orders_update:
  assumes "work_queues s' = (work_queues s)(q := w)"
  shows "orders s' = fst ` set (queued_tasks w)
     \<union> (\<Union>q' \<in> - {q}. fst ` set (queued_tasks (work_queues s q')))"
proof -
  have "(\<Union>q' \<in> - {q}. fst ` set (queued_tasks (work_queues s' q')))
      = (\<Union>q' \<in> - {q}. fst ` set (queued_tasks (work_queues s q')))"
    by (intro SUP_cong refl) (simp add: assms)
  then show ?thesis
    using orders_split [of s' q] by (simp add: assms)
qed

lemma list_update_nth:
  "i < length xs \<Longrightarrow> j < length xs \<Longrightarrow> xs[i := x] ! j = (if j = i then x else xs ! j)"
  by (auto simp: nth_list_update)

lemma Push_preserves:
  assumes ok: "maps_ok s" "queues_ok s"
    and fresh: "\<forall>k \<in> orders s. k < fst task"
    and push: "Push q task s = Inr s'"
  shows "maps_ok s'" and "queues_ok s'" and "orders s' = insert (fst task) (orders s)"
    and "length (enqueue_order_to_work_queue_maps s') = length (enqueue_order_to_work_queue_maps s)"
proof -
  let ?M = "enqueue_order_to_work_queue_maps s"
  let ?idx = "work_queue_set_index (work_queues s q)"
  define w where "w = (work_queues s q)\<lparr>queued_tasks := queued_tasks (work_queues s q) @ [task]\<rparr>"
  define s1 where "s1 = s\<lparr>work_queues := (work_queues s)(q := w)\<rparr>"
  have heap1: "work_queues s1 = (work_queues s)(q := w)"
    and maps1: "enqueue_order_to_work_queue_maps s1 = ?M"
    by (simp_all add: s1_def)
  have w_idx: "work_queue_set_index w = ?idx"
    by (simp add: w_def)
  have idx1: "work_queue_set_index (work_queues s1 q) = ?idx"
    by (simp add: heap1 w_idx)
  have q1: "queues_ok s1"
    using queues_ok_push [OF ok(2) fresh] heap1 by (simp add: w_def)
  have sorted: "sorted_wrt (<) (map fst (?M ! i))" if "i < length ?M" for i
    using ok(1) that by (simp add: maps_ok_def)
  have pushed: "OnPushQueue q s1 = Inr s'" if "queued_tasks (work_queues s q) = []"
    using push that by (simp add: Push_def Let_def s1_def w_def)
  have kept: "s' = s1" if "queued_tasks (work_queues s q) \<noteq> []"
    using push that by (simp add: Push_def Let_def s1_def w_def)
  have heap: "work_queues s' = (work_queues s)(q := w)"
    and len: "length (enqueue_order_to_work_queue_maps s') = length ?M"
  proof -
    show "work_queues s' = (work_queues s)(q := w)"
    proof (cases "queued_tasks (work_queues s q) = []")
      case True
      from OnPushQueue_result [OF pushed [OF True]] show ?thesis
        by (auto simp: heap1)
    next
      case False
      then show ?thesis by (simp add: kept heap1)
    qed
    show "length (enqueue_order_to_work_queue_maps s') = length ?M"
    proof (cases "queued_tasks (work_queues s q) = []")
      case True
      from OnPushQueue_result [OF pushed [OF True]] show ?thesis
        by (auto simp: maps1)
    next
      case False
      then show ?thesis by (simp add: kept maps1)
    qed
  qed
  show "length (enqueue_order_to_work_queue_maps s') = length ?M" by (fact len)
  have tasks: "\<forall>q'. queued_tasks (work_queues s' q') = queued_tasks (work_queues s1 q')"
    by (simp add: heap heap1)
  show q': "queues_ok s'"
    using queues_ok_same_tasks [OF q1 tasks] .
  show "orders s' = insert (fst task) (orders s)"
    using orders_update [OF heap] orders_split [of s q] by (simp add: w_def)
  show "maps_ok s'"
  proof (cases "queued_tasks (work_queues s q) = []")
    case True
    then have none: "GetFrontTaskEnqueueOrder (work_queues s q) = None"
      by (simp add: GetFront_None)
    have front: "GetFrontTaskEnqueueOrder w = Some (fst task)"
      using True by (simp add: GetFront_Some w_def)
    have front1: "GetFrontTaskEnqueueOrder (work_queues s1 q) = Some (fst task)"
      by (simp add: heap1 front)
    from OnPushQueue_result [OF pushed [OF True]]
    have idx: "?idx < length ?M"
      and s': "enqueue_order_to_work_queue_maps s' =
          ?M[?idx := map_insert (fst task, q) (?M ! ?idx)]"
      by (auto simp: front1 idx1 maps1)
    have nth: "enqueue_order_to_work_queue_maps s' ! i =
        (if i = ?idx then map_insert (fst task, q) (?M ! ?idx) else ?M ! i)"
      if "i < length ?M" for i
      using list_update_nth [OF idx that] by (simp add: s')
    have untouched: "{e \<in> set (?M ! i). snd e \<noteq> q} = set (?M ! i)" if "i < length ?M" for i
      using no_entry_of_queue [OF ok(1) that] none by simp
    have "fst task \<notin> fst ` set (?M ! ?idx)"
      using fresh_key [OF ok(1) q' heap front idx] untouched [OF idx] by simp
    then have ins: "set (map_insert (fst task, q) (?M ! ?idx)) = insert (fst task, q) (set (?M ! ?idx))"
      by (simp add: set_map_insert_fresh)
    show ?thesis
    proof (rule maps_ok_moved [OF ok(1) heap len])
      show "\<forall>i<length ?M. sorted_wrt (<) (map fst (enqueue_order_to_work_queue_maps s' ! i))"
        using sorted idx by (simp add: nth sorted_map_insert)
      show "\<forall>i<length ?M. set (enqueue_order_to_work_queue_maps s' ! i) =
          {e \<in> set (?M ! i). snd e \<noteq> q}
          \<union> {(k, q') . q' = q \<and> work_queue_set_index w = i \<and> GetFrontTaskEnqueueOrder w = Some k}"
      proof (intro allI impI)
        fix i assume i: "i < length ?M"
        have new: "{(k, q') . q' = q \<and> work_queue_set_index w = i \<and> GetFrontTaskEnqueueOrder w = Some k}
            = (if i = ?idx then {(fst task, q)} else {})"
          by (auto simp: front w_idx)
        show "set (enqueue_order_to_work_queue_maps s' ! i) =
          {e \<in> set (?M ! i). snd e \<noteq> q}
          \<union> {(k, q') . q' = q \<and> work_queue_set_index w = i \<and> GetFrontTaskEnqueueOrder w = Some k}"
          unfolding new untouched [OF i] nth [OF i] using ins by simp
      qed
      show "queued_tasks w \<noteq> [] \<longrightarrow> work_queue_set_index w < length ?M"
        using idx by (simp add: w_idx)
    qed
  next
    case False
    then have s': "s' = s1" by (rule kept)
    have front: "GetFrontTaskEnqueueOrder w = GetFrontTaskEnqueueOrder (work_queues s q)"
      using False by (cases "queued_tasks (work_queues s q)")
        (simp_all add: GetFrontTaskEnqueueOrder_def w_def)
    show ?thesis
    proof (rule maps_ok_moved [OF ok(1) heap len])
      show "\<forall>i<length ?M. sorted_wrt (<) (map fst (enqueue_order_to_work_queue_maps s' ! i))"
        using sorted by (simp add: s' maps1)
      show "\<forall>i<length ?M. set (enqueue_order_to_work_queue_maps s' ! i) =
          {e \<in> set (?M ! i). snd e \<noteq> q}
          \<union> {(k, q') . q' = q \<and> work_queue_set_index w = i \<and> GetFrontTaskEnqueueOrder w = Some k}"
        using split_entries [OF ok(1), of _ q] by (simp add: s' maps1 front w_idx)
      show "queued_tasks w \<noteq> [] \<longrightarrow> work_queue_set_index w < length ?M"
        using ok(1) False by (simp add: w_idx maps_ok_def)
    qed
  qed
qed


lemma OnPopQueue_result:
  assumes "OnPopQueue q s = Inr s'"
  shows "work_queue_set_index (work_queues s q) < length (enqueue_order_to_work_queue_maps s)"
    and "enqueue_order_to_work_queue_maps s ! work_queue_set_index (work_queues s q) \<noteq> []"
    and "snd (hd (enqueue_order_to_work_queue_maps s ! work_queue_set_index (work_queues s q))) = q"
    and "work_queues s' = work_queues s"
    and "enqueue_order_to_work_queue_maps s' =
       (enqueue_order_to_work_queue_maps s)
         [work_queue_set_index (work_queues s q) :=
            (case GetFrontTaskEnqueueOrder (work_queues s q) of
               None \<Rightarrow> tl (enqueue_order_to_work_queue_maps s ! work_queue_set_index (work_queues s q))
             | Some k \<Rightarrow> map_insert (k, q)
                 (tl (enqueue_order_to_work_queue_maps s ! work_queue_set_index (work_queues s q))))]"
  using assms
  by (auto simp: OnPopQueue_def Let_def split: option.splits if_splits)

lemma queues_ok_pop:
  assumes ok: "queues_ok s"
    and old: "queued_tasks (work_queues s q) = t # rest"
    and heap: "work_queues s' = (work_queues s)(q := (work_queues s q)\<lparr>queued_tasks := rest\<rparr>)"
  shows "queues_ok s'"
  unfolding queues_ok_def
proof (intro conjI allI impI)
  have sub: "set (queued_tasks (work_queues s' q')) \<subseteq> set (queued_tasks (work_queues s q'))" for q'
    using old by (auto simp: heap)
  fix q'
  show "sorted_wrt (<) (map fst (queued_tasks (work_queues s' q')))"
  proof (cases "q' = q")
    case True
    have "sorted_wrt (<) (map fst (t # rest))"
      using ok old unfolding queues_ok_def by metis
    then show ?thesis by (simp add: True heap)
  next
    case False
    then show ?thesis using ok by (simp add: heap queues_ok_def)
  qed
  fix q2 t1 t2
  assume "t1 \<in> set (queued_tasks (work_queues s' q'))
      \<and> t2 \<in> set (queued_tasks (work_queues s' q2)) \<and> fst t1 = fst t2"
  then have "t1 \<in> set (queued_tasks (work_queues s q'))
      \<and> t2 \<in> set (queued_tasks (work_queues s q2)) \<and> fst t1 = fst t2"
    using sub by blast
  then show "q' = q2"
    using ok unfolding queues_ok_def by blast
qed

lemma PopTaskFromFront_preserves:
  assumes ok: "maps_ok s" "queues_ok s"
    and pop: "PopTaskFromFront q s = Inr s'"
  shows "maps_ok s'" and "queues_ok s'" and "orders s' \<subseteq> orders s"
    and "length (enqueue_order_to_work_queue_maps s') = length (enqueue_order_to_work_queue_maps s)"
proof -
  let ?M = "enqueue_order_to_work_queue_maps s"
  let ?idx = "work_queue_set_index (work_queues s q)"
  let ?m = "?M ! ?idx"
  from pop obtain t rest where old: "queued_tasks (work_queues s q) = t # rest"
    by (cases "queued_tasks (work_queues s q)") (auto simp: PopTaskFromFront_def)
  define w where "w = (work_queues s q)\<lparr>queued_tasks := rest\<rparr>"
  define s1 where "s1 = s\<lparr>work_queues := (work_queues s)(q := w)\<rparr>"
  have heap1: "work_queues s1 = (work_queues s)(q := w)"
    and maps1: "enqueue_order_to_work_queue_maps s1 = ?M"
    by (simp_all add: s1_def)
  have w_idx: "work_queue_set_index w = ?idx"
    by (simp add: w_def)
  have at_q: "work_queues s1 q = w"
    by (simp add: heap1)
  have popped: "OnPopQueue q s1 = Inr s'"
    using pop old by (simp add: PopTaskFromFront_def s1_def w_def)
  note res = OnPopQueue_result [OF popped, unfolded maps1 at_q w_idx]
  have idx: "?idx < length ?M" and nonempty: "?m \<noteq> []" and min: "snd (hd ?m) = q"
    using res(1-3) .
  have heap: "work_queues s' = (work_queues s)(q := w)"
    using res(4) by (simp add: heap1)
  have s': "enqueue_order_to_work_queue_maps s' =
      ?M[?idx := (case GetFrontTaskEnqueueOrder w of
                    None \<Rightarrow> tl ?m | Some k \<Rightarrow> map_insert (k, q) (tl ?m))]"
    using res(5) .
  show len: "length (enqueue_order_to_work_queue_maps s') = length ?M"
    by (simp add: s')
  show q': "queues_ok s'"
    using queues_ok_pop [OF ok(2) old] heap by (simp add: w_def)
  show "orders s' \<subseteq> orders s"
    using orders_update [OF heap] orders_split [of s q] old by (auto simp: w_def)
  have sorted: "sorted_wrt (<) (map fst (?M ! i))" if "i < length ?M" for i
    using ok(1) that by (simp add: maps_ok_def)
  have front: "GetFrontTaskEnqueueOrder (work_queues s q) = Some (fst t)"
    using old by (simp add: GetFront_Some)
  have "hd ?m \<in> set ?m" using nonempty by simp
  then have "hd ?m \<in> entries s ?idx"
    using ok(1) idx by (simp add: maps_ok_def)
  then have "GetFrontTaskEnqueueOrder (work_queues s (snd (hd ?m))) = Some (fst (hd ?m))"
    by (auto simp: entries_def)
  with min front have key: "fst (hd ?m) = fst t" by simp
  have tl_sorted: "sorted_wrt (<) (map fst (tl ?m))"
    using sorted_tl_erase [OF sorted [OF idx] nonempty] sorted_map_erase [OF sorted [OF idx]]
    by simp
  have tl_set: "set (tl ?m) = {e \<in> set ?m. snd e \<noteq> q}"
    using sorted_tl_erase [OF sorted [OF idx] nonempty]
      entry_of_queue(2) [OF ok(1) front refl idx]
    by (simp add: key set_map_erase)
  have nth: "enqueue_order_to_work_queue_maps s' ! i =
      (if i = ?idx then (case GetFrontTaskEnqueueOrder w of
                    None \<Rightarrow> tl ?m | Some k \<Rightarrow> map_insert (k, q) (tl ?m)) else ?M ! i)"
    if "i < length ?M" for i
    using list_update_nth [OF idx that] by (simp add: s')
  have elsewhere: "{e \<in> set (?M ! i). snd e \<noteq> q} = set (?M ! i)"
    if "i < length ?M" "i \<noteq> ?idx" for i
    using no_entry_of_queue [OF ok(1) that(1), of q] that(2) by simp
  show "maps_ok s'"
  proof (rule maps_ok_moved [OF ok(1) heap len])
    show "\<forall>i<length ?M. sorted_wrt (<) (map fst (enqueue_order_to_work_queue_maps s' ! i))"
      using sorted tl_sorted by (simp add: nth sorted_map_insert split: option.split)
    show "queued_tasks w \<noteq> [] \<longrightarrow> work_queue_set_index w < length ?M"
      using idx by (simp add: w_idx)
    show "\<forall>i<length ?M. set (enqueue_order_to_work_queue_maps s' ! i) =
        {e \<in> set (?M ! i). snd e \<noteq> q}
        \<union> {(k, q') . q' = q \<and> work_queue_set_index w = i \<and> GetFrontTaskEnqueueOrder w = Some k}"
    proof (intro allI impI)
      fix i assume i: "i < length ?M"
      show "set (enqueue_order_to_work_queue_maps s' ! i) =
        {e \<in> set (?M ! i). snd e \<noteq> q}
        \<union> {(k, q') . q' = q \<and> work_queue_set_index w = i \<and> GetFrontTaskEnqueueOrder w = Some k}"
      proof (cases "i = ?idx")
        case False
        then have empty: "{(k, q') . q' = q \<and> work_queue_set_index w = i
            \<and> GetFrontTaskEnqueueOrder w = Some k} = {}"
          by (auto simp: w_idx)
        show ?thesis
          unfolding empty using elsewhere [OF i False] False by (simp add: nth [OF i])
      next
        case True
        show ?thesis
        proof (cases "GetFrontTaskEnqueueOrder w")
          case None
          then have empty: "{(k, q') . q' = q \<and> work_queue_set_index w = i
              \<and> GetFrontTaskEnqueueOrder w = Some k} = {}"
            by simp
          show ?thesis
            unfolding empty using True tl_set None by (simp add: nth [OF idx])
        next
          case (Some k)
          have "k \<notin> fst ` set (tl ?m)"
            using fresh_key [OF ok(1) q' heap Some idx] tl_set by simp
          then have ins: "set (map_insert (k, q) (tl ?m)) = insert (k, q) (set (tl ?m))"
            by (simp add: set_map_insert_fresh)
          have single: "{(k', q') . q' = q \<and> work_queue_set_index w = i
              \<and> GetFrontTaskEnqueueOrder w = Some k'} = {(k, q)}"
            using True Some by (auto simp: w_idx)
          show ?thesis
            unfolding single using True tl_set Some ins by (simp add: nth [OF idx])
        qed
      qed
    qed
  qed
qed


lemma AssignQueueToSet_result:
  assumes "AssignQueueToSet q set_index s = Inr s'"
  shows "set_index < length (enqueue_order_to_work_queue_maps s)"
    and "work_queue_set_index (work_queues s q) < length (enqueue_order_to_work_queue_maps s)"
    and "work_queues s' =
       (work_queues s)(q := (work_queues s q)\<lparr>work_queue_set_index := set_index\<rparr>)"
    and "enqueue_order_to_work_queue_maps s' =
       (case GetFrontTaskEnqueueOrder (work_queues s q) of
          None \<Rightarrow> enqueue_order_to_work_queue_maps s
        | Some k \<Rightarrow>
            ((enqueue_order_to_work_queue_maps s)
               [work_queue_set_index (work_queues s q) :=
                  map_erase k (enqueue_order_to_work_queue_maps s
                                 ! work_queue_set_index (work_queues s q))])
               [set_index := map_insert (k, q)
                  ((enqueue_order_to_work_queue_maps s)
                     [work_queue_set_index (work_queues s q) :=
                        map_erase k (enqueue_order_to_work_queue_maps s
                                       ! work_queue_set_index (work_queues s q))] ! set_index)])"
  using assms
  by (auto simp: AssignQueueToSet_def set_work_queue_set_index_def Let_def
      split: option.splits if_splits)

lemma AssignQueueToSet_preserves:
  assumes ok: "maps_ok s" "queues_ok s"
    and assign: "AssignQueueToSet q new s = Inr s'"
  shows "maps_ok s'" and "queues_ok s'" and "orders s' = orders s"
    and "length (enqueue_order_to_work_queue_maps s') = length (enqueue_order_to_work_queue_maps s)"
proof -
  let ?M = "enqueue_order_to_work_queue_maps s"
  let ?old = "work_queue_set_index (work_queues s q)"
  define w where "w = (work_queues s q)\<lparr>work_queue_set_index := new\<rparr>"
  note res = AssignQueueToSet_result [OF assign]
  have new: "new < length ?M" and old: "?old < length ?M"
    using res(1,2) .
  have heap: "work_queues s' = (work_queues s)(q := w)"
    using res(3) by (simp add: w_def)
  have w_idx: "work_queue_set_index w = new"
    and w_front: "GetFrontTaskEnqueueOrder w = GetFrontTaskEnqueueOrder (work_queues s q)"
    by (simp_all add: w_def GetFrontTaskEnqueueOrder_def)
  have tasks: "\<forall>q'. queued_tasks (work_queues s' q') = queued_tasks (work_queues s q')"
    by (simp add: heap w_def)
  show q': "queues_ok s'"
    using queues_ok_same_tasks [OF ok(2) tasks] .
  show "orders s' = orders s"
    using orders_same_tasks [OF tasks] .
  show len: "length (enqueue_order_to_work_queue_maps s') = length ?M"
    using res(4) by (simp split: option.split)
  have sorted: "sorted_wrt (<) (map fst (?M ! i))" if "i < length ?M" for i
    using ok(1) that by (simp add: maps_ok_def)
  show "maps_ok s'"
  proof (cases "GetFrontTaskEnqueueOrder (work_queues s q)")
    case None
    then have s': "enqueue_order_to_work_queue_maps s' = ?M"
      using res(4) by simp
    have empty: "{(k, q') . q' = q \<and> work_queue_set_index w = i
        \<and> GetFrontTaskEnqueueOrder w = Some k} = {}" for i
      using None by (simp add: w_front)
    show ?thesis
    proof (rule maps_ok_moved [OF ok(1) heap len])
      show "\<forall>i<length ?M. sorted_wrt (<) (map fst (enqueue_order_to_work_queue_maps s' ! i))"
        using sorted by (simp add: s')
      show "\<forall>i<length ?M. set (enqueue_order_to_work_queue_maps s' ! i) =
          {e \<in> set (?M ! i). snd e \<noteq> q}
          \<union> {(k, q') . q' = q \<and> work_queue_set_index w = i \<and> GetFrontTaskEnqueueOrder w = Some k}"
        unfolding empty s' using no_entry_of_queue [OF ok(1), of _ q] None by simp
      show "queued_tasks w \<noteq> [] \<longrightarrow> work_queue_set_index w < length ?M"
        using new by (simp add: w_idx)
    qed
  next
    case (Some k)
    define erased where "erased = ?M[?old := map_erase k (?M ! ?old)]"
    have s': "enqueue_order_to_work_queue_maps s' =
        erased[new := map_insert (k, q) (erased ! new)]"
      using res(4) Some by (simp add: erased_def)
    have erased_len: "length erased = length ?M"
      by (simp add: erased_def)
    have erased_nth: "erased ! i = (if i = ?old then map_erase k (?M ! ?old) else ?M ! i)"
      if "i < length ?M" for i
      using list_update_nth [OF old that] by (simp add: erased_def)
    have erased_sorted: "sorted_wrt (<) (map fst (erased ! i))" if "i < length ?M" for i
      using sorted [OF that] sorted_map_erase [OF sorted [OF old]] by (simp add: erased_nth [OF that])
    have erased_set: "set (erased ! i) = {e \<in> set (?M ! i). snd e \<noteq> q}"
      if i: "i < length ?M" for i
    proof (cases "i = ?old")
      case True
      then show ?thesis
        using entry_of_queue(2) [OF ok(1) Some refl old]
        by (simp add: erased_nth [OF old] set_map_erase)
    next
      case False
      then show ?thesis
        using no_entry_of_queue [OF ok(1) i, of q] by (simp add: erased_nth [OF i])
    qed
    have nth: "enqueue_order_to_work_queue_maps s' ! i =
        (if i = new then map_insert (k, q) (erased ! new) else erased ! i)"
      if "i < length ?M" for i
      using list_update_nth [of new erased i] new that by (simp add: s' erased_len)
    have "k \<notin> fst ` set (erased ! new)"
      using fresh_key [OF ok(1) q' heap _ new, of k] Some by (simp add: w_front erased_set [OF new])
    then have ins: "set (map_insert (k, q) (erased ! new)) = insert (k, q) (set (erased ! new))"
      by (simp add: set_map_insert_fresh)
    have moved: "{(k', q') . q' = q \<and> work_queue_set_index w = i
        \<and> GetFrontTaskEnqueueOrder w = Some k'} = (if i = new then {(k, q)} else {})" for i
      using Some by (auto simp: w_idx w_front)
    show ?thesis
    proof (rule maps_ok_moved [OF ok(1) heap len])
      show "\<forall>i<length ?M. sorted_wrt (<) (map fst (enqueue_order_to_work_queue_maps s' ! i))"
        using erased_sorted new by (simp add: nth sorted_map_insert)
      show "\<forall>i<length ?M. set (enqueue_order_to_work_queue_maps s' ! i) =
          {e \<in> set (?M ! i). snd e \<noteq> q}
          \<union> {(k, q') . q' = q \<and> work_queue_set_index w = i \<and> GetFrontTaskEnqueueOrder w = Some k}"
        unfolding moved using ins erased_set new by (simp add: nth)
      show "queued_tasks w \<noteq> [] \<longrightarrow> work_queue_set_index w < length ?M"
        using new by (simp add: w_idx)
    qed
  qed
qed


lemma new_WorkQueueSets_ok:
  "maps_ok (new_WorkQueueSets n initial_set)" "queues_ok (new_WorkQueueSets n initial_set)"
  "orders (new_WorkQueueSets n initial_set) = {}"
  "length (enqueue_order_to_work_queue_maps (new_WorkQueueSets n initial_set)) = n"
  by (simp_all add: new_WorkQueueSets_def maps_ok_def queues_ok_def orders_def entries_def
      GetFrontTaskEnqueueOrder_def)

lemma sets_run_preserves:
  assumes "maps_ok s" and "queues_ok s"
    and "sorted_wrt (<) (pushed_orders cs)"
    and "\<forall>k \<in> orders s. \<forall>k' \<in> set (pushed_orders cs). k < k'"
    and "sets_run cs s = Inr s'"
  shows "maps_ok s' \<and> queues_ok s'
     \<and> length (enqueue_order_to_work_queue_maps s') = length (enqueue_order_to_work_queue_maps s)"
  using assms
proof (induction cs arbitrary: s)
  case Nil
  then show ?case by simp
next
  case (Cons c cs)
  from Cons.prems(5) obtain s1 where step: "sets_call c s = Inr s1" and rest: "sets_run cs s1 = Inr s'"
    by (auto split: sum.splits)
  have "maps_ok s1 \<and> queues_ok s1
      \<and> length (enqueue_order_to_work_queue_maps s1) = length (enqueue_order_to_work_queue_maps s)
      \<and> sorted_wrt (<) (pushed_orders cs)
      \<and> (\<forall>k \<in> orders s1. \<forall>k' \<in> set (pushed_orders cs). k < k')"
  proof (cases c)
    case (CallPush q task)
    have fresh: "\<forall>k \<in> orders s. k < fst task"
      using Cons.prems(4) by (simp add: CallPush)
    from step have push: "Push q task s = Inr s1"
      by (simp add: CallPush)
    show ?thesis
      using Push_preserves [OF Cons.prems(1,2) fresh push] Cons.prems(3,4)
      by (auto simp: CallPush)
  next
    case (CallPopTaskFromFront q)
    from step have pop: "PopTaskFromFront q s = Inr s1"
      by (simp add: CallPopTaskFromFront)
    show ?thesis
      using PopTaskFromFront_preserves [OF Cons.prems(1,2) pop] Cons.prems(3,4)
      by (auto simp: CallPopTaskFromFront)
  next
    case (CallAssignQueueToSet q i)
    from step have assign: "AssignQueueToSet q i s = Inr s1"
      by (simp add: CallAssignQueueToSet)
    show ?thesis
      using AssignQueueToSet_preserves [OF Cons.prems(1,2) assign] Cons.prems(3,4)
      by (auto simp: CallAssignQueueToSet)
  qed
  then show ?case
    using Cons.IH [of s1] rest by simp
qed

lemma reached_ok:
  assumes "sets_run cs (new_WorkQueueSets n initial_set) = Inr s"
    and "sorted_wrt (<) (pushed_orders cs)"
  shows "maps_ok s" and "queues_ok s" and "length (enqueue_order_to_work_queue_maps s) = n"
  using sets_run_preserves [OF new_WorkQueueSets_ok(1,2) assms(2) _ assms(1)]
  by (simp_all add: new_WorkQueueSets_ok)




lemma registered_update:
  "registered (s\<lparr>enqueue_order_to_work_queue_maps := (enqueue_order_to_work_queue_maps s)[i := m]\<rparr>)
     \<subseteq> snd ` set m \<union> registered s"
  using set_update_subset_insert [of "enqueue_order_to_work_queue_maps s" i m]
  by (auto simp: registered_def)

lemma registered_update2:
  "registered (s\<lparr>enqueue_order_to_work_queue_maps :=
       (enqueue_order_to_work_queue_maps s)[i := m, j := m']\<rparr>)
     \<subseteq> snd ` set m \<union> snd ` set m' \<union> registered s"
proof -
  have "set ((enqueue_order_to_work_queue_maps s)[i := m, j := m'])
      \<subseteq> insert m' (insert m (set (enqueue_order_to_work_queue_maps s)))"
    using set_update_subset_insert [of "(enqueue_order_to_work_queue_maps s)[i := m]" j m']
      set_update_subset_insert [of "enqueue_order_to_work_queue_maps s" i m]
    by blast
  then show ?thesis
    by (auto simp: registered_def)
qed

lemma registered_nth:
  "i < length (enqueue_order_to_work_queue_maps s) \<Longrightarrow>
   snd ` set (enqueue_order_to_work_queue_maps s ! i) \<subseteq> registered s"
  using nth_mem [of i "enqueue_order_to_work_queue_maps s"]
  unfolding registered_def by blast

lemma snd_map_insert: "snd ` set (map_insert (k, q) m) \<subseteq> insert q (snd ` set m)"
  by (induction m) auto

lemma snd_map_erase: "snd ` set (map_erase k m) \<subseteq> snd ` set m"
  by (auto simp: map_erase_def)

lemma snd_tl: "snd ` set (tl m) \<subseteq> snd ` set m"
  by (cases m) auto

lemma registered_heap:
  "enqueue_order_to_work_queue_maps s' = enqueue_order_to_work_queue_maps s \<Longrightarrow>
   registered s' = registered s"
  by (simp add: registered_def)


lemma sets_call_registered:
  assumes "sets_call c s = Inr s'"
  shows "registered s' \<subseteq> insert (call_queue c) (registered s)"
proof (cases c)
  case (CallPush q task)
  define s1 where "s1 = s\<lparr>work_queues := (work_queues s)
      (q := (work_queues s q)\<lparr>queued_tasks := queued_tasks (work_queues s q) @ [task]\<rparr>)\<rparr>"
  have same: "registered s1 = registered s"
    by (rule registered_heap) (simp add: s1_def)
  show ?thesis
  proof (cases "queued_tasks (work_queues s q) = []")
    case True
    with assms have "OnPushQueue q s1 = Inr s'"
      by (simp add: CallPush Push_def Let_def s1_def)
    from OnPushQueue_result [OF this] obtain k where
      i: "work_queue_set_index (work_queues s1 q) < length (enqueue_order_to_work_queue_maps s1)"
      and s': "s' = s1\<lparr>enqueue_order_to_work_queue_maps :=
          (enqueue_order_to_work_queue_maps s1)
            [work_queue_set_index (work_queues s1 q) :=
               map_insert (k, q)
                 (enqueue_order_to_work_queue_maps s1 ! work_queue_set_index (work_queues s1 q))]\<rparr>"
      by blast
    show ?thesis
      using registered_update [of s1 "work_queue_set_index (work_queues s1 q)"
          "map_insert (k, q)
             (enqueue_order_to_work_queue_maps s1 ! work_queue_set_index (work_queues s1 q))"]
        snd_map_insert [of k q
          "enqueue_order_to_work_queue_maps s1 ! work_queue_set_index (work_queues s1 q)"]
        registered_nth [OF i] same
      unfolding s' [symmetric] CallPush by auto
  next
    case False
    with assms have "s' = s1"
      by (simp add: CallPush Push_def Let_def s1_def)
    then show ?thesis using same by auto
  qed
next
  case (CallPopTaskFromFront q)
  from assms obtain t rest where old: "queued_tasks (work_queues s q) = t # rest"
    by (cases "queued_tasks (work_queues s q)") (auto simp: CallPopTaskFromFront PopTaskFromFront_def)
  define s1 where "s1 = s\<lparr>work_queues := (work_queues s)
      (q := (work_queues s q)\<lparr>queued_tasks := rest\<rparr>)\<rparr>"
  have same: "registered s1 = registered s"
    by (rule registered_heap) (simp add: s1_def)
  let ?i = "work_queue_set_index (work_queues s1 q)"
  let ?m = "enqueue_order_to_work_queue_maps s1 ! ?i"
  from assms old have popped: "OnPopQueue q s1 = Inr s'"
    by (simp add: CallPopTaskFromFront PopTaskFromFront_def s1_def)
  note res = OnPopQueue_result [OF popped]
  define m' where "m' = (case GetFrontTaskEnqueueOrder (work_queues s1 q) of
      None \<Rightarrow> tl ?m | Some k \<Rightarrow> map_insert (k, q) (tl ?m))"
  define A where "A = snd ` set m'"
  define B where "B = snd ` set ?m"
  have "A \<subseteq> insert q B"
  proof (cases "GetFrontTaskEnqueueOrder (work_queues s1 q)")
    case None
    then show ?thesis using snd_tl [of ?m] by (auto simp: m'_def A_def B_def)
  next
    case (Some k)
    then have "A \<subseteq> insert q (snd ` set (tl ?m))"
      using snd_map_insert [of k q "tl ?m"] by (simp add: m'_def A_def)
    then show ?thesis using snd_tl [of ?m] unfolding B_def by blast
  qed
  moreover have "registered s' \<subseteq> A \<union> registered s"
  proof -
    have "registered s' =
        registered (s1\<lparr>enqueue_order_to_work_queue_maps := (enqueue_order_to_work_queue_maps s1)[?i := m']\<rparr>)"
      by (rule registered_heap) (simp add: res(5) m'_def)
    then show ?thesis
      using registered_update [of s1 ?i m'] same by (simp add: A_def)
  qed
  moreover have "B \<subseteq> registered s"
    using registered_nth [OF res(1)] same by (simp add: B_def)
  ultimately have "registered s' \<subseteq> insert q (registered s)"
    by blast
  then show ?thesis
    by (simp add: CallPopTaskFromFront)
next
  case (CallAssignQueueToSet q new)
  from assms have assign: "AssignQueueToSet q new s = Inr s'"
    by (simp add: CallAssignQueueToSet)
  note res = AssignQueueToSet_result [OF assign]
  let ?old = "work_queue_set_index (work_queues s q)"
  show ?thesis
  proof (cases "GetFrontTaskEnqueueOrder (work_queues s q)")
    case None
    then have "registered s' = registered s"
      using res(4) by (intro registered_heap) simp
    then show ?thesis by auto
  next
    case (Some k)
    define erased where "erased = map_erase k (enqueue_order_to_work_queue_maps s ! ?old)"
    define target where "target = (enqueue_order_to_work_queue_maps s)[?old := erased] ! new"
    have "registered s' = registered (s\<lparr>enqueue_order_to_work_queue_maps :=
        (enqueue_order_to_work_queue_maps s)[?old := erased, new := map_insert (k, q) target]\<rparr>)"
      using res(4) Some by (intro registered_heap) (simp add: erased_def target_def)
    then have sub: "registered s' \<subseteq> snd ` set erased \<union> snd ` set (map_insert (k, q) target)
        \<union> registered s"
      using registered_update2 [of s ?old erased new "map_insert (k, q) target"] by simp
    have erased: "snd ` set erased \<subseteq> registered s"
      using snd_map_erase [of k "enqueue_order_to_work_queue_maps s ! ?old"]
        registered_nth [OF res(2)] unfolding erased_def by blast
    have "snd ` set target \<subseteq> registered s"
    proof (cases "new = ?old")
      case True
      then show ?thesis using erased res(2) by (simp add: target_def)
    next
      case False
      then show ?thesis
        using registered_nth [OF res(1)] by (simp add: target_def)
    qed
    then have "snd ` set (map_insert (k, q) target) \<subseteq> insert q (registered s)"
      using snd_map_insert [of k q target] by blast
    with sub erased have "registered s' \<subseteq> insert q (registered s)"
      by blast
    then show ?thesis
      by (simp add: CallAssignQueueToSet)
  qed
qed

lemma sets_run_registered:
  "sets_run cs s = Inr s' \<Longrightarrow> q \<notin> registered s \<Longrightarrow> q \<notin> set (map call_queue cs) \<Longrightarrow>
   q \<notin> registered s'"
proof (induction cs arbitrary: s)
  case Nil
  then show ?case by simp
next
  case (Cons c cs)
  from Cons.prems(1) obtain s1 where step: "sets_call c s = Inr s1" and rest: "sets_run cs s1 = Inr s'"
    by (auto split: sum.splits)
  have "q \<notin> registered s1"
    using sets_call_registered [OF step] Cons.prems(2,3) by auto
  then show ?case
    using Cons.IH [OF rest] Cons.prems(3) by simp
qed

lemma GetOldestQueueInSet_registered:
  "GetOldestQueueInSet j s = Inr (Some q) \<Longrightarrow> q \<in> registered s"
proof -
  assume a: "GetOldestQueueInSet j s = Inr (Some q)"
  then have j: "j < length (enqueue_order_to_work_queue_maps s)"
    and m: "enqueue_order_to_work_queue_maps s ! j \<noteq> []"
    and q: "q = snd (hd (enqueue_order_to_work_queue_maps s ! j))"
    by (auto simp: GetOldestQueueInSet_def Let_def split: if_splits)
  from m have "hd (enqueue_order_to_work_queue_maps s ! j) \<in> set (enqueue_order_to_work_queue_maps s ! j)"
    by simp
  then have "q \<in> snd ` set (enqueue_order_to_work_queue_maps s ! j)"
    using q by simp
  then show ?thesis
    using registered_nth [OF j] by blast
qed

lemma registered_iff:
  "q \<in> registered s \<longleftrightarrow>
     (\<exists>j < length (enqueue_order_to_work_queue_maps s).
        q \<in> snd ` set (enqueue_order_to_work_queue_maps s ! j))"
proof
  assume "q \<in> registered s"
  then obtain m where "m \<in> set (enqueue_order_to_work_queue_maps s)" "q \<in> snd ` set m"
    unfolding registered_def by blast
  then show "\<exists>j < length (enqueue_order_to_work_queue_maps s).
      q \<in> snd ` set (enqueue_order_to_work_queue_maps s ! j)"
    by (auto simp: in_set_conv_nth)
next
  assume "\<exists>j < length (enqueue_order_to_work_queue_maps s).
      q \<in> snd ` set (enqueue_order_to_work_queue_maps s ! j)"
  then show "q \<in> registered s"
    using registered_nth by blast
qed

lemma list_update_numeral:
  "(x # xs)[numeral k := y] = x # xs[pred_numeral k := y]"
  by (simp add: numeral_eq_Suc)

lemma new_WorkQueueSets_3:
  "new_WorkQueueSets 3 (\<lambda>q. 0) =
     \<lparr>enqueue_order_to_work_queue_maps = [[], [], []], work_queues = (\<lambda>q. empty_queue)\<rparr>"
  by (simp add: new_WorkQueueSets_def empty_queue_def numeral_3_eq_3)

lemma example_run: "sets_run example_calls (new_WorkQueueSets 3 (\<lambda>q. 0)) = Inr example_sets"
  by (simp add: new_WorkQueueSets_3 example_calls_def example_sets_def empty_queue_def
      AssignQueueToSet_def set_work_queue_set_index_def Push_def OnPushQueue_def
      GetFrontTaskEnqueueOrder_def map_erase_def Let_def fun_eq_iff list_update_numeral)

lemma example_sorted: "sorted_wrt (<) (pushed_orders example_calls)"
  by (simp add: example_calls_def)

section \<open>Oldest queue of a set\<close>





text \<open>
  C5. \<open>OnPopQueue\<close> fails its DCHECKs unless the queue's set exists, its map is not
  empty and the first entry of the map is this queue. Otherwise it erases that first
  entry and, if the queue still has a front task, inserts the queue under the new front
  EnqueueOrder; with no front task the map is just the rest. In a map in key order the
  first entry is the minimum, erasing it removes exactly that entry, and the insertion
  adds the entry unless its key is already present.
\<close>

theorem OnPopQueue_contract:
  "let i = work_queue_set_index (work_queues s q);
       maps = enqueue_order_to_work_queue_maps s;
       m = maps ! i
   in (\<not> i < length maps \<or> m = [] \<or> snd (hd m) \<noteq> q \<longrightarrow>
         OnPopQueue q s = Inl DCHECK_failed)
    \<and> (i < length maps \<and> m \<noteq> [] \<and> snd (hd m) = q \<longrightarrow>
         OnPopQueue q s =
           Inr (s\<lparr>enqueue_order_to_work_queue_maps :=
                  maps[i := (case GetFrontTaskEnqueueOrder (work_queues s q) of
                               None \<Rightarrow> tl m
                             | Some k \<Rightarrow> map_insert (k, q) (tl m))]\<rparr>)
         \<and> (sorted_wrt (<) (map fst m) \<longrightarrow>
               (\<forall>e \<in> set m. fst (hd m) \<le> fst e)
             \<and> set (tl m) = set m - {hd m}
             \<and> (\<forall>k. set (map_insert (k, q) (tl m)) =
                     (if k \<in> fst ` set (tl m) then set (tl m)
                      else insert (k, q) (set (tl m))))))"
proof -
  let ?i = "work_queue_set_index (work_queues s q)"
  let ?maps = "enqueue_order_to_work_queue_maps s"
  let ?m = "?maps ! ?i"
  have failed: "OnPopQueue q s = Inl DCHECK_failed"
    if "\<not> ?i < length ?maps \<or> ?m = [] \<or> snd (hd ?m) \<noteq> q"
    using that by (auto simp: OnPopQueue_def Let_def)
  have popped: "OnPopQueue q s =
      Inr (s\<lparr>enqueue_order_to_work_queue_maps :=
             ?maps[?i := (case GetFrontTaskEnqueueOrder (work_queues s q) of
                            None \<Rightarrow> tl ?m
                          | Some k \<Rightarrow> map_insert (k, q) (tl ?m))]\<rparr>)"
    if "?i < length ?maps \<and> ?m \<noteq> [] \<and> snd (hd ?m) = q"
    using that by (simp add: OnPopQueue_def Let_def split: option.split)
  have least: "\<forall>e \<in> set ?m. fst (hd ?m) \<le> fst e" if "sorted_wrt (<) (map fst ?m)"
    using sorted_hd_least [OF that] by blast
  have erased: "set (tl ?m) = set ?m - {hd ?m}"
    if "sorted_wrt (<) (map fst ?m)" "?m \<noteq> []"
    using sorted_set_tl [OF that] .
  have reinsert: "set (map_insert (k, q) (tl ?m)) =
      (if k \<in> fst ` set (tl ?m) then set (tl ?m) else insert (k, q) (set (tl ?m)))"
    if "sorted_wrt (<) (map fst ?m)" for k
  proof -
    have "sorted_wrt (<) (map fst (tl ?m))"
      using that by (cases ?m) simp_all
    from set_map_insert [OF this, of "(k, q)"] show ?thesis by simp
  qed
  show ?thesis
    unfolding Let_def using failed popped least erased reinsert by blast
qed

theorem OnPopQueue_contract_witness:
  "snd (hd (enqueue_order_to_work_queue_maps example_sets
             ! work_queue_set_index (work_queues example_sets 9))) \<noteq> 9
   \<and> OnPopQueue 9 example_sets = Inl DCHECK_failed
   \<and> snd (hd (enqueue_order_to_work_queue_maps popped_sets
             ! work_queue_set_index (work_queues popped_sets 7))) = 7
   \<and> OnPopQueue 7 popped_sets =
       Inr (popped_sets\<lparr>enqueue_order_to_work_queue_maps := [[(3, 7), (4, 9)], [], [(1, 5)]]\<rparr>)
   \<and> sorted_wrt (<) (map fst (enqueue_order_to_work_queue_maps popped_sets
         ! work_queue_set_index (work_queues popped_sets 7)))
   \<and> set (tl (enqueue_order_to_work_queue_maps popped_sets
         ! work_queue_set_index (work_queues popped_sets 7)))
       = set (enqueue_order_to_work_queue_maps popped_sets
         ! work_queue_set_index (work_queues popped_sets 7)) - {(2, 7)}"
proof -
  note not_min = OnPopQueue_contract [where s = example_sets and q = 9, unfolded Let_def]
  note min = OnPopQueue_contract [where s = popped_sets and q = 7, unfolded Let_def]
  have other: "snd (hd (enqueue_order_to_work_queue_maps example_sets
      ! work_queue_set_index (work_queues example_sets 9))) \<noteq> 9"
    by (simp add: example_sets_def)
  with not_min have failed: "OnPopQueue 9 example_sets = Inl DCHECK_failed"
    by blast
  have front: "work_queue_set_index (work_queues popped_sets 7) = 0
      \<and> enqueue_order_to_work_queue_maps popped_sets = [[(2, 7), (4, 9)], [], [(1, 5)]]
      \<and> GetFrontTaskEnqueueOrder (work_queues popped_sets 7) = Some 3"
    by (simp add: popped_sets_def example_sets_def GetFrontTaskEnqueueOrder_def)
  then have mine: "snd (hd (enqueue_order_to_work_queue_maps popped_sets
      ! work_queue_set_index (work_queues popped_sets 7))) = 7"
    by simp
  have ordered: "sorted_wrt (<) (map fst (enqueue_order_to_work_queue_maps popped_sets
      ! work_queue_set_index (work_queues popped_sets 7)))"
    using front by simp
  have popped: "OnPopQueue 7 popped_sets =
      Inr (popped_sets\<lparr>enqueue_order_to_work_queue_maps := [[(3, 7), (4, 9)], [], [(1, 5)]]\<rparr>)"
    using min front by simp
  have "set (tl (enqueue_order_to_work_queue_maps popped_sets
        ! work_queue_set_index (work_queues popped_sets 7)))
      = set (enqueue_order_to_work_queue_maps popped_sets
        ! work_queue_set_index (work_queues popped_sets 7))
        - {hd (enqueue_order_to_work_queue_maps popped_sets
             ! work_queue_set_index (work_queues popped_sets 7))}"
    using min mine ordered front by simp
  then have erased: "set (tl (enqueue_order_to_work_queue_maps popped_sets
        ! work_queue_set_index (work_queues popped_sets 7)))
      = set (enqueue_order_to_work_queue_maps popped_sets
        ! work_queue_set_index (work_queues popped_sets 7)) - {(2, 7)}"
    using front by simp
  from other failed mine popped ordered erased show ?thesis by blast
qed

text \<open>
  C9. \<open>RemoveQueue\<close> leaves the state as it is when the queue has no front task. In
  every state reached by pushes, pops and reassignments, a queue with front task \<open>k\<close> is
  removed by erasing key \<open>k\<close> from the map of its set; afterwards the queue occurs in no
  map, so \<open>GetOldestQueueInSet\<close> does not return it for any set, at once and after any
  further calls that do not act on this queue.
\<close>

theorem RemoveQueue_contract:
  "(GetFrontTaskEnqueueOrder (work_queues s q) = None \<longrightarrow> RemoveQueue q s = Inr s)
   \<and> (sets_run cs (new_WorkQueueSets n initial_set) = Inr s \<and> sorted_wrt (<) (pushed_orders cs)
        \<and> GetFrontTaskEnqueueOrder (work_queues s q) = Some k \<longrightarrow>
       (let i = work_queue_set_index (work_queues s q);
            maps = enqueue_order_to_work_queue_maps s;
            s' = s\<lparr>enqueue_order_to_work_queue_maps := maps[i := map_erase k (maps ! i)]\<rparr>
        in RemoveQueue q s = Inr s'
         \<and> q \<notin> registered s'
         \<and> (\<forall>j. GetOldestQueueInSet j s' \<noteq> Inr (Some q))
         \<and> (\<forall>cs' s''. sets_run cs' s' = Inr s'' \<and> q \<notin> set (map call_queue cs') \<longrightarrow>
               (\<forall>j. GetOldestQueueInSet j s'' \<noteq> Inr (Some q)))))"
proof -
  let ?i = "work_queue_set_index (work_queues s q)"
  let ?M = "enqueue_order_to_work_queue_maps s"
  let ?s' = "s\<lparr>enqueue_order_to_work_queue_maps := ?M[?i := map_erase k (?M ! ?i)]\<rparr>"
  have noop: "RemoveQueue q s = Inr s" if "GetFrontTaskEnqueueOrder (work_queues s q) = None"
    using that by (simp add: RemoveQueue_def)
  have removed: "RemoveQueue q s = Inr ?s' \<and> q \<notin> registered ?s'"
    if run: "sets_run cs (new_WorkQueueSets n initial_set) = Inr s"
      "sorted_wrt (<) (pushed_orders cs)"
      and front: "GetFrontTaskEnqueueOrder (work_queues s q) = Some k"
  proof -
    note ok = reached_ok [OF run]
    have "queued_tasks (work_queues s q) \<noteq> []"
      using front by (simp add: GetFront_Some)
    then have i: "?i < length ?M"
      using ok(1) by (simp add: maps_ok_def)
    have sorted: "sorted_wrt (<) (map fst (?M ! ?i))"
      using ok(1) i by (simp add: maps_ok_def)
    note entry = entry_of_queue [OF ok(1) front refl i]
    have "map_of (?M ! ?i) k = Some q"
      using sorted_map_of [OF sorted] entry(1) by simp
    then have result: "RemoveQueue q s = Inr ?s'"
      using front i by (simp add: RemoveQueue_def Let_def)
    have "q \<notin> snd ` set (enqueue_order_to_work_queue_maps ?s' ! j)" if j: "j < length ?M" for j
    proof (cases "j = ?i")
      case True
      have "set (map_erase k (?M ! ?i)) = {e \<in> set (?M ! ?i). snd e \<noteq> q}"
        using entry(2) by (simp add: set_map_erase)
      then have "q \<notin> snd ` set (map_erase k (?M ! ?i))"
        by auto
      then show ?thesis
        using True i by simp
    next
      case False
      have "{e \<in> set (?M ! j). snd e \<noteq> q} = set (?M ! j)"
        using no_entry_of_queue [OF ok(1) j, of q] False by simp
      then have "q \<notin> snd ` set (?M ! j)"
        by auto
      then show ?thesis
        using False by simp
    qed
    then have "q \<notin> registered ?s'"
      by (simp add: registered_iff)
    with result show ?thesis by simp
  qed
  have later: "\<forall>j. GetOldestQueueInSet j s'' \<noteq> Inr (Some q)"
    if "q \<notin> registered ?s'" "sets_run cs' ?s' = Inr s''" "q \<notin> set (map call_queue cs')"
    for cs' s''
    using sets_run_registered [OF that(2,1,3)] GetOldestQueueInSet_registered [of _ s'' q]
    by blast
  have now: "\<forall>j. GetOldestQueueInSet j ?s' \<noteq> Inr (Some q)" if "q \<notin> registered ?s'"
    using that GetOldestQueueInSet_registered [of _ ?s' q] by blast
  show ?thesis
    unfolding Let_def
  proof (intro conjI impI)
    assume "GetFrontTaskEnqueueOrder (work_queues s q) = None"
    then show "RemoveQueue q s = Inr s" by (rule noop)
  next
    assume a: "sets_run cs (new_WorkQueueSets n initial_set) = Inr s
        \<and> sorted_wrt (<) (pushed_orders cs)
        \<and> GetFrontTaskEnqueueOrder (work_queues s q) = Some k"
    then have r: "RemoveQueue q s = Inr ?s' \<and> q \<notin> registered ?s'"
      using removed by blast
    show "RemoveQueue q s = Inr ?s'" using r by simp
    show "q \<notin> registered ?s'" using r by simp
    show "\<forall>j. GetOldestQueueInSet j ?s' \<noteq> Inr (Some q)"
      using r now by simp
    show "\<forall>cs' s''. sets_run cs' ?s' = Inr s'' \<and> q \<notin> set (map call_queue cs') \<longrightarrow>
        (\<forall>j. GetOldestQueueInSet j s'' \<noteq> Inr (Some q))"
    proof (intro allI impI)
      fix cs' s'' j
      assume "sets_run cs' ?s' = Inr s'' \<and> q \<notin> set (map call_queue cs')"
      then show "GetOldestQueueInSet j s'' \<noteq> Inr (Some q)"
        using later [of cs' s''] r by blast
    qed
  qed
qed

theorem RemoveQueue_contract_witness:
  "GetFrontTaskEnqueueOrder (work_queues example_sets 11) = None
   \<and> RemoveQueue 11 example_sets = Inr example_sets
   \<and> sets_run example_calls (new_WorkQueueSets 3 (\<lambda>q. 0)) = Inr example_sets
   \<and> sorted_wrt (<) (pushed_orders example_calls)
   \<and> GetFrontTaskEnqueueOrder (work_queues example_sets 9) = Some 4
   \<and> RemoveQueue 9 example_sets =
       Inr (example_sets\<lparr>enqueue_order_to_work_queue_maps := [[(2, 7)], [], [(1, 5)]]\<rparr>)
   \<and> (\<forall>j. GetOldestQueueInSet j
              (example_sets\<lparr>enqueue_order_to_work_queue_maps := [[(2, 7)], [], [(1, 5)]]\<rparr>)
            \<noteq> Inr (Some 9))
   \<and> 9 \<notin> set (map call_queue [CallPopTaskFromFront 7])
   \<and> (\<exists>s''. sets_run [CallPopTaskFromFront 7]
                (example_sets\<lparr>enqueue_order_to_work_queue_maps := [[(2, 7)], [], [(1, 5)]]\<rparr>)
              = Inr s''
          \<and> (\<forall>j. GetOldestQueueInSet j s'' \<noteq> Inr (Some 9)))"
proof -
  let ?removed = "example_sets\<lparr>enqueue_order_to_work_queue_maps := [[(2, 7)], [], [(1, 5)]]\<rparr>"
  note absent = RemoveQueue_contract [where s = example_sets and q = 11]
  note present = RemoveQueue_contract
      [where s = example_sets and q = 9 and cs = example_calls and n = 3 and k = 4
         and initial_set = "\<lambda>q. 0",
       unfolded Let_def]
  have none: "GetFrontTaskEnqueueOrder (work_queues example_sets 11) = None"
    by (simp add: example_sets_def empty_queue_def GetFrontTaskEnqueueOrder_def)
  with absent have noop: "RemoveQueue 11 example_sets = Inr example_sets"
    by blast
  have front: "GetFrontTaskEnqueueOrder (work_queues example_sets 9) = Some 4"
    by (simp add: example_sets_def GetFrontTaskEnqueueOrder_def)
  have erased: "(enqueue_order_to_work_queue_maps example_sets)
      [work_queue_set_index (work_queues example_sets 9) :=
         map_erase 4 (enqueue_order_to_work_queue_maps example_sets
                        ! work_queue_set_index (work_queues example_sets 9))]
      = [[(2, 7)], [], [(1, 5)]]"
    by (simp add: example_sets_def map_erase_def)
  note after = present [unfolded erased]
  have removed: "RemoveQueue 9 example_sets = Inr ?removed"
    and now: "\<forall>j. GetOldestQueueInSet j ?removed \<noteq> Inr (Some 9)"
    using after example_run example_sorted front by blast+
  have others: "9 \<notin> set (map call_queue [CallPopTaskFromFront 7])"
    by simp
  have "\<exists>s''. sets_run [CallPopTaskFromFront 7] ?removed = Inr s''"
    by (simp add: PopTaskFromFront_def OnPopQueue_def example_sets_def
        GetFrontTaskEnqueueOrder_def Let_def)
  then obtain s'' where run: "sets_run [CallPopTaskFromFront 7] ?removed = Inr s''"
    by blast
  have "\<forall>j. GetOldestQueueInSet j s'' \<noteq> Inr (Some 9)"
    using after example_run example_sorted front run others by blast
  with run have later: "\<exists>s''. sets_run [CallPopTaskFromFront 7] ?removed = Inr s''
      \<and> (\<forall>j. GetOldestQueueInSet j s'' \<noteq> Inr (Some 9))"
    by blast
  from none noop example_run example_sorted front removed now others later
  show ?thesis by blast
qed

end
